theory Spec2Isabelle
  imports Main "HOL-Library.AList"
begin

section \<open>JavaScript collections\<close>

text \<open>
  A JavaScript \<^verbatim>\<open>Set<string>\<close> iterates in insertion order and holds each element once:
  it is a list without repetition. \<^verbatim>\<open>add\<close> appends an element that is not there yet,
  \<^verbatim>\<open>delete\<close> removes it, and \<^verbatim>\<open>new Set(array)\<close> adds the elements of the array from left
  to right. A \<^verbatim>\<open>Map<string, V>\<close> is an association list in insertion order:
  \<^verbatim>\<open>set\<close> is \<^const>\<open>AList.update\<close> (in place for a known key, at the end for a new one),
  \<^verbatim>\<open>get\<close> is \<^const>\<open>map_of\<close>, \<^verbatim>\<open>delete\<close> is \<^const>\<open>AList.delete\<close>.
\<close>

definition set_add :: "'a list \<Rightarrow> 'a \<Rightarrow> 'a list" where
  "set_add s x = (if x \<in> set s then s else s @ [x])"

definition set_delete :: "'a list \<Rightarrow> 'a \<Rightarrow> 'a list" where
  "set_delete s x = removeAll x s"

definition new_Set :: "'a list \<Rightarrow> 'a list" where
  "new_Set xs = fold (\<lambda>x s. set_add s x) xs []"

definition map_has :: "('k \<times> 'v) list \<Rightarrow> 'k \<Rightarrow> bool" where
  "map_has m k = (map_of m k \<noteq> None)"

section \<open>The module graph (module-graph.ts)\<close>

text \<open>
  The exports object of a node is opaque to the graph. \<^verbatim>\<open>createProxy(target)\<close> returns a
  tracked view of the target and a tracker whose set of accessed names starts empty.
\<close>

datatype exports_value = EmptyObject | TrackedView exports_value

record DependencyTracker =
  accessedProperties :: "string list"

definition createProxy :: "exports_value \<Rightarrow> exports_value \<times> DependencyTracker" where
  "createProxy target = (TrackedView target, \<lparr>accessedProperties = []\<rparr>)"

text \<open>
  The server never fills the \<^verbatim>\<open>hot\<close> field of a node; its callbacks are kept as opaque
  identifiers.
\<close>

record NodeHotState =
  node_data :: string
  node_acceptCallbacks :: "nat list"
  node_disposeCallbacks :: "nat list"
  node_isAccepted :: bool
  node_isDeclined :: bool

record ModuleNode =
  node_id :: string
  rawExports :: exports_value
  exports :: exports_value
  node_importers :: "string list"
  node_imports :: "string list"
  hot :: "NodeHotState option"
  proxy :: "exports_value option"
  dependencyTracker :: "DependencyTracker option"

record ModuleGraph =
  modules :: "(string \<times> ModuleNode) list"
  dependencyGraph :: "(string \<times> string list) list"
  reverseDependencyGraph :: "(string \<times> string list) list"
  circularDependencyCache :: "(nat \<times> string list list) list"
  version :: nat

definition new_ModuleGraph :: ModuleGraph where
  "new_ModuleGraph = \<lparr>modules = [], dependencyGraph = [], reverseDependencyGraph = [],
     circularDependencyCache = [], version = 0\<rparr>"

definition getModule :: "ModuleGraph \<Rightarrow> string \<Rightarrow> ModuleNode option" where
  "getModule g i = map_of (modules g) i"

definition getDependents :: "ModuleGraph \<Rightarrow> string \<Rightarrow> string list" where
  "getDependents g i = (case map_of (reverseDependencyGraph g) i of Some s \<Rightarrow> s | None \<Rightarrow> [])"

text \<open>The loop over \<^verbatim>\<open>added\<close> in \<^verbatim>\<open>updateDependencies\<close>: one iteration for one \<^verbatim>\<open>dep\<close>.\<close>

definition add_dependent :: "string \<Rightarrow> string \<Rightarrow> (string \<times> string list) list
    \<Rightarrow> (string \<times> string list) list" where
  "add_dependent moduleId dep r =
     (let r1 = (if \<not> map_has r dep then AList.update dep [] r else r)
      in case map_of r1 dep of
           Some s \<Rightarrow> AList.update dep (set_add s moduleId) r1
         | None \<Rightarrow> r1)"

text \<open>The loop over \<^verbatim>\<open>removed\<close>: one iteration for one \<^verbatim>\<open>dep\<close>.\<close>

definition remove_dependent :: "string \<Rightarrow> string \<Rightarrow> (string \<times> string list) list
    \<Rightarrow> (string \<times> string list) list" where
  "remove_dependent moduleId dep r =
     (case map_of r dep of
        Some dependents \<Rightarrow>
          (let d = set_delete dependents moduleId
           in if length d = 0 then AList.delete dep r else AList.update dep d r)
      | None \<Rightarrow> r)"

definition updateDependencies :: "ModuleGraph \<Rightarrow> string \<Rightarrow> string list \<Rightarrow> string list
    \<Rightarrow> ModuleGraph" where
  "updateDependencies g moduleId newImports oldImports =
     (let added = new_Set (filter (\<lambda>x. x \<notin> set oldImports) newImports);
          removed = new_Set (filter (\<lambda>x. x \<notin> set newImports) oldImports);
          g1 = g\<lparr>dependencyGraph := AList.update moduleId (new_Set newImports) (dependencyGraph g)\<rparr>;
          g2 = g1\<lparr>reverseDependencyGraph :=
                  fold (add_dependent moduleId) added (reverseDependencyGraph g1)\<rparr>
      in g2\<lparr>reverseDependencyGraph :=
              fold (remove_dependent moduleId) removed (reverseDependencyGraph g2)\<rparr>)"

text \<open>
  \<^verbatim>\<open>updateModule(id, code, isHmrEnabled)\<close>. The regular-expression scanner
  \<^verbatim>\<open>parseImports\<close> is the parameter \<open>parseImports\<close>: the graph only uses the list of
  specifiers it returns, and every statement below holds for every scanner. The second
  argument of \<^verbatim>\<open>updateDependencies\<close> is the node's own \<^verbatim>\<open>imports\<close> set, which no
  statement of the class ever writes.
\<close>

definition updateModule :: "(string \<Rightarrow> string \<Rightarrow> string list) \<Rightarrow> ModuleGraph \<Rightarrow> string \<Rightarrow> string
    \<Rightarrow> bool \<Rightarrow> ModuleGraph" where
  "updateModule parseImports g i code isHmrEnabled =
     (let imports_list = parseImports i code;
          existing = getModule g i;
          node = (case existing of
                    Some n \<Rightarrow> n
                  | None \<Rightarrow> \<lparr>node_id = i, rawExports = EmptyObject, exports = EmptyObject,
                              node_importers = [], node_imports = [], hot = None, proxy = None,
                              dependencyTracker = None\<rparr>);
          node1 = (if isHmrEnabled
                   then (if proxy node = None
                         then (let (p, tracker) = createProxy (rawExports node)
                               in node\<lparr>exports := p, dependencyTracker := Some tracker\<rparr>)
                         else node)
                   else node\<lparr>exports := rawExports node\<rparr>);
          g1 = updateDependencies g i imports_list (node_imports node1)
      in g1\<lparr>modules := AList.update i node1 (modules g1),
             version := version g1 + 1,
             circularDependencyCache := []\<rparr>)"

text \<open>A sequence of \<^verbatim>\<open>updateModule\<close> calls, each given by its three arguments.\<close>

definition updateModules :: "(string \<Rightarrow> string \<Rightarrow> string list) \<Rightarrow> (string \<times> string \<times> bool) list
    \<Rightarrow> ModuleGraph \<Rightarrow> ModuleGraph" where
  "updateModules parseImports calls g =
     fold (\<lambda>(i, code, h) g'. updateModule parseImports g' i code h) calls g"

text \<open>
  A scanner for the examples: the code of a module is the list of its specifiers, one
  character each.
\<close>

definition letters :: "string \<Rightarrow> string \<Rightarrow> string list" where
  "letters i code = map (\<lambda>c. [c]) code"

subsection \<open>getUpdateChain\<close>

text \<open>
  The state the closure \<^verbatim>\<open>visit\<close> of \<^verbatim>\<open>getUpdateChain\<close> works on. \<^verbatim>\<open>visited\<close> and
  \<^verbatim>\<open>recursionStack\<close> are only tested for membership, so their order is not kept.
\<close>

record VisitState =
  visited :: "string set"
  recursionStack :: "string set"
  result :: "string list"
  cycles :: "string list list"

definition graph_keys :: "ModuleGraph \<Rightarrow> string set" where
  "graph_keys g = fst ` set (reverseDependencyGraph g)"

lemma getDependents_no_key: "i \<notin> graph_keys g \<Longrightarrow> getDependents g i = []"
  by (auto simp: getDependents_def graph_keys_def split: option.splits dest: map_of_SomeD
      intro: rev_image_eqI)

text \<open>
  \<open>visit_forEach g ids path st\<close> is \<^verbatim>\<open>ids.forEach(depId => visit(depId, path))\<close>: the
  body of \<^verbatim>\<open>visit\<close> for the first identifier, then the rest of the array.
\<close>

function visit_forEach :: "ModuleGraph \<Rightarrow> string list \<Rightarrow> string list \<Rightarrow> VisitState \<Rightarrow> VisitState"
  where
  "visit_forEach g [] path st = st"
| "visit_forEach g (i # ids) path st =
     visit_forEach g ids path
       (if i \<in> recursionStack st then st\<lparr>cycles := cycles st @ [path @ [i]]\<rparr>
        else if i \<in> visited st then st
        else (let st1 = st\<lparr>visited := insert i (visited st),
                           recursionStack := insert i (recursionStack st)\<rparr>;
                  st2 = visit_forEach g (getDependents g i) (path @ [i]) st1
              in st2\<lparr>result := result st2 @ [i],
                     recursionStack := recursionStack st2 - {i}\<rparr>))"
  by pat_completeness auto

lemma visit_forEach_dom_visited:
  "visit_forEach_dom (g, ids, path, st) \<Longrightarrow> visited st \<subseteq> visited (visit_forEach g ids path st)"
proof (induction g ids path st rule: visit_forEach.pinduct)
  case (1 g path st)
  then show ?case by (simp add: visit_forEach.psimps)
next
  case (2 g i ids path st)
  show ?case
  proof (cases "i \<in> recursionStack st \<or> i \<in> visited st")
    case True
    with 2(1,3) show ?thesis by (auto simp: visit_forEach.psimps)
  next
    case False
    then have a: "i \<notin> recursionStack st" and b: "i \<notin> visited st" by auto
    from 2(1) a b 2(2)[OF a b refl] 2(3)
    show ?thesis
      by (simp add: visit_forEach.psimps Let_def) blast
  qed
qed

termination visit_forEach
  apply (relation "inv_image (finite_psubset <*lex*> less_than)
    (\<lambda>(g, ids, path, st). (graph_keys g - visited st, length ids))")
  subgoal by (intro wf_inv_image wf_lex_prod wf_finite_psubset wf_less_than)
  subgoal for g i ids path st x
    by (cases "i \<in> graph_keys g")
      (auto simp: finite_psubset_def graph_keys_def getDependents_no_key)
  subgoal premises p for g i ids path st
  proof -
    let ?arg = "if i \<in> recursionStack st then st\<lparr>cycles := cycles st @ [path @ [i]]\<rparr>
        else if i \<in> visited st then st
        else (let st1 = st\<lparr>visited := insert i (visited st),
                           recursionStack := insert i (recursionStack st)\<rparr>;
                  st2 = visit_forEach g (getDependents g i) (path @ [i]) st1
              in st2\<lparr>result := result st2 @ [i],
                     recursionStack := recursionStack st2 - {i}\<rparr>)"
    have "visited st \<subseteq> visited ?arg"
      using visit_forEach_dom_visited[OF p[OF _ _ refl]]
      by (auto simp: Let_def)
    then have "graph_keys g - visited ?arg \<subseteq> graph_keys g - visited st" by blast
    then show ?thesis
      by (auto simp: finite_psubset_def graph_keys_def)
  qed
  done

declare visit_forEach.simps [simp del]

definition visit :: "ModuleGraph \<Rightarrow> string \<Rightarrow> string list \<Rightarrow> VisitState \<Rightarrow> VisitState" where
  "visit g i path st = visit_forEach g [i] path st"

definition getUpdateChain_walk :: "ModuleGraph \<Rightarrow> string \<Rightarrow> VisitState" where
  "getUpdateChain_walk g changedFile =
     visit g changedFile [] \<lparr>visited = {}, recursionStack = {}, result = [], cycles = []\<rparr>"

definition getUpdateChain :: "ModuleGraph \<Rightarrow> string \<Rightarrow> string list" where
  "getUpdateChain g changedFile = rev (result (getUpdateChain_walk g changedFile))"

subsection \<open>detectStronglyConnectedComponents\<close>

text \<open>\<^verbatim>\<open>graph.get(id) || new Set()\<close> for a \<^verbatim>\<open>Map<string, Set<string>>\<close>.\<close>

definition neighbours :: "(string \<times> string list) list \<Rightarrow> string \<Rightarrow> string list" where
  "neighbours gr i = (case map_of gr i of Some s \<Rightarrow> s | None \<Rightarrow> [])"

lemma neighbours_no_key: "i \<notin> fst ` set gr \<Longrightarrow> neighbours gr i = []"
  by (auto simp: neighbours_def split: option.splits dest: map_of_SomeD intro: rev_image_eqI)

text \<open>
  First pass: the closure \<^verbatim>\<open>visit\<close> records finish times in \<^verbatim>\<open>order\<close>.
  \<open>order_forEach gr ids st\<close> is \<^verbatim>\<open>ids.forEach(depId => visit(depId))\<close>.
\<close>

record OrderState =
  order_visited :: "string set"
  order :: "string list"

function order_forEach :: "(string \<times> string list) list \<Rightarrow> string list \<Rightarrow> OrderState \<Rightarrow> OrderState"
  where
  "order_forEach gr [] st = st"
| "order_forEach gr (i # ids) st =
     order_forEach gr ids
       (if i \<in> order_visited st then st
        else (let st1 = st\<lparr>order_visited := insert i (order_visited st)\<rparr>;
                  st2 = order_forEach gr (neighbours gr i) st1
              in st2\<lparr>order := order st2 @ [i]\<rparr>))"
  by pat_completeness auto

lemma order_forEach_dom_visited:
  "order_forEach_dom (gr, ids, st) \<Longrightarrow> order_visited st \<subseteq> order_visited (order_forEach gr ids st)"
proof (induction gr ids st rule: order_forEach.pinduct)
  case (1 gr st)
  then show ?case by (simp add: order_forEach.psimps)
next
  case (2 gr i ids st)
  show ?case
  proof (cases "i \<in> order_visited st")
    case True
    with 2(1,3) show ?thesis by (auto simp: order_forEach.psimps)
  next
    case False
    from 2(1) False 2(2)[OF False refl] 2(3)
    show ?thesis
      by (simp add: order_forEach.psimps Let_def) blast
  qed
qed

termination order_forEach
  apply (relation "inv_image (finite_psubset <*lex*> less_than)
    (\<lambda>(gr, ids, st). (fst ` set gr - order_visited st, length ids))")
  subgoal by (intro wf_inv_image wf_lex_prod wf_finite_psubset wf_less_than)
  subgoal for gr i ids st x
    by (cases "i \<in> fst ` set gr") (auto simp: finite_psubset_def neighbours_no_key)
  subgoal premises p for gr i ids st
  proof -
    let ?arg = "if i \<in> order_visited st then st
        else (let st1 = st\<lparr>order_visited := insert i (order_visited st)\<rparr>;
                  st2 = order_forEach gr (neighbours gr i) st1
              in st2\<lparr>order := order st2 @ [i]\<rparr>)"
    have "order_visited st \<subseteq> order_visited ?arg"
      using order_forEach_dom_visited[OF p[OF _ refl]] by (auto simp: Let_def)
    then have "fst ` set gr - order_visited ?arg \<subseteq> fst ` set gr - order_visited st" by blast
    then show ?thesis by (auto simp: finite_psubset_def)
  qed
  done

declare order_forEach.simps [simp del]

text \<open>
  The transposed graph: \<^verbatim>\<open>dependencyGraph.forEach((deps, id) => deps.forEach(depId => ...))\<close>.
\<close>

definition transpose_edge :: "string \<Rightarrow> string \<Rightarrow> (string \<times> string list) list
    \<Rightarrow> (string \<times> string list) list" where
  "transpose_edge i depId t =
     (let t1 = (if \<not> map_has t depId then AList.update depId [] t else t)
      in case map_of t1 depId of
           Some s \<Rightarrow> AList.update depId (set_add s i) t1
         | None \<Rightarrow> t1)"

definition transposedGraph :: "(string \<times> string list) list \<Rightarrow> (string \<times> string list) list" where
  "transposedGraph dg = fold (\<lambda>(i, deps) t. fold (transpose_edge i) deps t) dg []"

text \<open>
  Second pass: the closure \<^verbatim>\<open>assign\<close> pushes an identifier on the component when it
  first sees it. \<open>assign_forEach t ids st\<close> is
  \<^verbatim>\<open>ids.forEach(depId => assign(depId, component))\<close>.
\<close>

record AssignState =
  assign_visited :: "string set"
  component :: "string list"

function assign_forEach :: "(string \<times> string list) list \<Rightarrow> string list \<Rightarrow> AssignState \<Rightarrow> AssignState"
  where
  "assign_forEach t [] st = st"
| "assign_forEach t (i # ids) st =
     assign_forEach t ids
       (if i \<in> assign_visited st then st
        else assign_forEach t (neighbours t i)
               (st\<lparr>assign_visited := insert i (assign_visited st),
                   component := component st @ [i]\<rparr>))"
  by pat_completeness auto

lemma assign_forEach_dom_visited:
  "assign_forEach_dom (t, ids, st) \<Longrightarrow>
     assign_visited st \<subseteq> assign_visited (assign_forEach t ids st)"
proof (induction t ids st rule: assign_forEach.pinduct)
  case (1 t st)
  then show ?case by (simp add: assign_forEach.psimps)
next
  case (2 t i ids st)
  show ?case
  proof (cases "i \<in> assign_visited st")
    case True
    with 2(1,3) show ?thesis by (auto simp: assign_forEach.psimps)
  next
    case False
    from 2(1) False 2(2)[OF False] 2(3)
    show ?thesis
      by (simp add: assign_forEach.psimps) blast
  qed
qed

termination assign_forEach
  apply (relation "inv_image (finite_psubset <*lex*> less_than)
    (\<lambda>(t, ids, st). (fst ` set t - assign_visited st, length ids))")
  subgoal by (intro wf_inv_image wf_lex_prod wf_finite_psubset wf_less_than)
  subgoal for t i ids st
    by (cases "i \<in> fst ` set t") (auto simp: finite_psubset_def neighbours_no_key)
  subgoal premises p for t i ids st
  proof -
    let ?arg = "if i \<in> assign_visited st then st
        else assign_forEach t (neighbours t i)
               (st\<lparr>assign_visited := insert i (assign_visited st),
                   component := component st @ [i]\<rparr>)"
    have "assign_visited st \<subseteq> assign_visited ?arg"
      using assign_forEach_dom_visited[OF p] by auto
    then have "fst ` set t - assign_visited ?arg \<subseteq> fst ` set t - assign_visited st" by blast
    then show ?thesis by (auto simp: finite_psubset_def)
  qed
  done

declare assign_forEach.simps [simp del]

text \<open>
  The \<^verbatim>\<open>while (order.length > 0)\<close> loop: \<^verbatim>\<open>order.pop()\<close> takes the identifiers from the
  end of \<^verbatim>\<open>order\<close>, so the loop runs over the reversed list.
\<close>

fun components_loop :: "(string \<times> string list) list \<Rightarrow> string list \<Rightarrow> string set
    \<Rightarrow> string list list \<Rightarrow> string list list" where
  "components_loop t [] vis components = components"
| "components_loop t (i # popped) vis components =
     (if i \<notin> vis
      then (let st = assign_forEach t [i] \<lparr>assign_visited = vis, component = []\<rparr>
            in components_loop t popped (assign_visited st)
                 (if length (component st) > 1 then components @ [component st]
                  else components))
      else components_loop t popped vis components)"

definition finish_order :: "ModuleGraph \<Rightarrow> string list" where
  "finish_order g =
     order (order_forEach (dependencyGraph g) (map fst (modules g))
              \<lparr>order_visited = {}, order = []\<rparr>)"

definition detectStronglyConnectedComponents :: "ModuleGraph \<Rightarrow> string list list" where
  "detectStronglyConnectedComponents g =
     components_loop (transposedGraph (dependencyGraph g)) (rev (finish_order g)) {} []"

text \<open>
  \<^verbatim>\<open>getCircularDependencies\<close>: the memoised version. The cache key is
  \<^verbatim>\<open>version.toString()\<close>; distinct numbers give distinct keys, so the model keys the
  cache by the number.
\<close>

definition getCircularDependencies :: "ModuleGraph \<Rightarrow> string list list \<times> ModuleGraph" where
  "getCircularDependencies g =
     (let cacheKey = version g
      in case map_of (circularDependencyCache g) cacheKey of
           Some c \<Rightarrow> (c, g)
         | None \<Rightarrow>
             (let c = detectStronglyConnectedComponents g
              in (c, g\<lparr>circularDependencyCache :=
                        AList.update cacheKey c (circularDependencyCache g)\<rparr>)))"

section \<open>The server (hmr-server.ts)\<close>

text \<open>
  A \<^verbatim>\<open>WebSocket\<close> object is known by its identity only. What the server reads from
  outside is gathered in the record \<open>Env\<close>: the content of a file (or the error
  \<^verbatim>\<open>fs.promises.readFile\<close> throws), the SHA-256 digest, esbuild's \<^verbatim>\<open>transform\<close> (or the
  error it throws), \<^verbatim>\<open>path.extname\<close>, the \<^verbatim>\<open>readyState\<close> of each socket and the clock.
  What it does to the outside is logged in the server record: \<open>sent\<close> lists every
  \<^verbatim>\<open>client.send\<close> with the object that was serialised, \<open>console\<close> every
  \<^verbatim>\<open>console.error\<close>.
\<close>

type_synonym WebSocket = nat

datatype ReadyState = CONNECTING | OPEN | CLOSING | CLOSED

record JsError =
  message :: string
  stack :: string

datatype Loader = Loader_ts | Loader_tsx | Loader_jsx | Loader_json | Loader_css | Loader_js

record Env =
  readFile :: "string \<Rightarrow> JsError + string"
  sha256 :: "string \<Rightarrow> string"
  esbuildTransform :: "string \<Rightarrow> Loader \<Rightarrow> JsError + string"
  extname :: "string \<Rightarrow> string"
  readyState :: "WebSocket \<Rightarrow> ReadyState"
  now :: nat

record CacheEntry =
  cache_code :: string
  cache_hash :: string

datatype UpdateType = Update_type | Reload_type | Error_type

record HMRUpdate =
  update_type :: UpdateType
  update_file :: string
  clients :: "WebSocket list"
  timestamp :: nat

datatype ServerMessage =
    UpdateMessage HMRUpdate
  | ErrorMessage string string string nat

text \<open>
  \<open>wss_clients\<close> is the set \<^verbatim>\<open>wss.clients\<close> of the WebSocket server: the open connections.
  \<open>connection_modules\<close> holds, for each connection, the set \<^verbatim>\<open>clientModules\<close> local to
  its \<^verbatim>\<open>'connection'\<close> callback.
\<close>

record HMRServer =
  wss_clients :: "WebSocket list"
  moduleGraph :: ModuleGraph
  moduleCache :: "(string \<times> CacheEntry) list"
  clientModules :: "(string \<times> WebSocket list) list"
  connection_modules :: "(WebSocket \<times> string list) list"
  sent :: "(WebSocket \<times> ServerMessage) list"
  console :: "string list"

definition new_HMRServer :: HMRServer where
  "new_HMRServer = \<lparr>wss_clients = [], moduleGraph = new_ModuleGraph, moduleCache = [],
     clientModules = [], connection_modules = [], sent = [], console = []\<rparr>"

subsection \<open>Connections\<close>

text \<open>
  The data of a client message after \<^verbatim>\<open>JSON.parse\<close>: text that does not parse (the
  handler catches the exception and logs it), or an object with its \<^verbatim>\<open>type\<close> and
  \<^verbatim>\<open>file\<close> fields.
\<close>

datatype ClientData = Malformed | Parsed string string

datatype ServerEvent = Connection WebSocket | Message WebSocket ClientData | Close WebSocket

text \<open>
  The \<^verbatim>\<open>connection\<close> handler creates the closure variable \<^verbatim>\<open>clientModules\<close>, kept here in
  \<open>connection_modules\<close> under the socket. The set \<^verbatim>\<open>wss.clients\<close> belongs to the \<^verbatim>\<open>ws\<close> library,
  which adds a socket when it connects and removes it when it closes. A socket connects once,
  and a socket that is not connected delivers no message and no close event.
\<close>

definition on_connection :: "WebSocket \<Rightarrow> HMRServer \<Rightarrow> HMRServer" where
  "on_connection ws srv =
     (if map_has (connection_modules srv) ws then srv
      else srv\<lparr>wss_clients := set_add (wss_clients srv) ws,
               connection_modules := AList.update ws [] (connection_modules srv)\<rparr>)"

definition on_message :: "WebSocket \<Rightarrow> ClientData \<Rightarrow> HMRServer \<Rightarrow> HMRServer" where
  "on_message ws data srv =
     (case map_of (connection_modules srv) ws of
        None \<Rightarrow> srv
      | Some mine \<Rightarrow>
          (case data of
             Malformed \<Rightarrow> srv\<lparr>console := console srv @ [''Error processing client message:'']\<rparr>
           | Parsed ty f \<Rightarrow>
               (if ty = ''module-loaded''
                then (let srv1 = srv\<lparr>connection_modules :=
                                   AList.update ws (set_add mine f) (connection_modules srv)\<rparr>;
                          cm = (if \<not> map_has (clientModules srv1) f
                                then AList.update f [] (clientModules srv1)
                                else clientModules srv1)
                      in case map_of cm f of
                           Some s \<Rightarrow> srv1\<lparr>clientModules := AList.update f (set_add s ws) cm\<rparr>
                         | None \<Rightarrow> srv1\<lparr>clientModules := cm\<rparr>)
                else srv)))"

text \<open>One iteration of \<^verbatim>\<open>clientModules.forEach(file => ...)\<close> in the \<^verbatim>\<open>'close'\<close> handler.\<close>

definition forget_client :: "WebSocket \<Rightarrow> string \<Rightarrow> (string \<times> WebSocket list) list
    \<Rightarrow> (string \<times> WebSocket list) list" where
  "forget_client ws f cm =
     (case map_of cm f of
        Some cs \<Rightarrow>
          (let cs1 = set_delete cs ws
           in if length cs1 = 0 then AList.delete f cm else AList.update f cs1 cm)
      | None \<Rightarrow> cm)"

definition on_close :: "WebSocket \<Rightarrow> HMRServer \<Rightarrow> HMRServer" where
  "on_close ws srv =
     (case map_of (connection_modules srv) ws of
        None \<Rightarrow> srv
      | Some mine \<Rightarrow>
          srv\<lparr>wss_clients := set_delete (wss_clients srv) ws,
              clientModules := fold (forget_client ws) mine (clientModules srv)\<rparr>)"

fun server_event :: "ServerEvent \<Rightarrow> HMRServer \<Rightarrow> HMRServer" where
  "server_event (Connection ws) srv = on_connection ws srv"
| "server_event (Message ws data) srv = on_message ws data srv"
| "server_event (Close ws) srv = on_close ws srv"

definition server_events :: "ServerEvent list \<Rightarrow> HMRServer \<Rightarrow> HMRServer" where
  "server_events evs srv = fold server_event evs srv"

subsection \<open>Processing a change\<close>

definition getLoader :: "Env \<Rightarrow> string \<Rightarrow> Loader" where
  "getLoader env f =
     (let ext = drop 1 (extname env f)
      in if ext = ''ts'' then Loader_ts
         else if ext = ''tsx'' then Loader_tsx
         else if ext = ''jsx'' then Loader_jsx
         else if ext = ''json'' then Loader_json
         else if ext = ''css'' then Loader_css
         else Loader_js)"

text \<open>
  \<^verbatim>\<open>transformModule\<close> returns the code and the server with its cache, or the error that
  was thrown (the cache is written only after a successful transform).
  \<open>esbuild_and_cache\<close> is the part of its body after the early return on a cache hit.
\<close>

definition esbuild_and_cache :: "Env \<Rightarrow> HMRServer \<Rightarrow> string \<Rightarrow> string \<Rightarrow> string
    \<Rightarrow> JsError + (string \<times> HMRServer)" where
  "esbuild_and_cache env srv f content currentHash =
     (case esbuildTransform env content (getLoader env f) of
        Inl err \<Rightarrow> Inl err
      | Inr result_code \<Rightarrow>
          Inr (result_code,
               srv\<lparr>moduleCache :=
                     AList.update f \<lparr>cache_code = result_code, cache_hash = currentHash\<rparr>
                       (moduleCache srv)\<rparr>))"

definition transformModule :: "Env \<Rightarrow> HMRServer \<Rightarrow> string \<Rightarrow> JsError + (string \<times> HMRServer)" where
  "transformModule env srv f =
     (case readFile env f of
        Inl err \<Rightarrow> Inl err
      | Inr content \<Rightarrow>
          (let currentHash = sha256 env content
           in case map_of (moduleCache srv) f of
                Some cached \<Rightarrow>
                  (if cache_hash cached = currentHash then Inr (cache_code cached, srv)
                   else esbuild_and_cache env srv f content currentHash)
              | None \<Rightarrow> esbuild_and_cache env srv f content currentHash))"

definition calculateUpdates :: "Env \<Rightarrow> HMRServer \<Rightarrow> string list \<Rightarrow> HMRUpdate list" where
  "calculateUpdates env srv updateChain =
     map (\<lambda>f. \<lparr>update_type = Update_type, update_file = f,
                clients = (case map_of (clientModules srv) f of Some s \<Rightarrow> s | None \<Rightarrow> []),
                timestamp = now env\<rparr>) updateChain"

definition send :: "Env \<Rightarrow> WebSocket \<Rightarrow> ServerMessage \<Rightarrow> HMRServer \<Rightarrow> HMRServer" where
  "send env client msg srv =
     (if readyState env client = OPEN then srv\<lparr>sent := sent srv @ [(client, msg)]\<rparr> else srv)"

definition notifyClients :: "Env \<Rightarrow> HMRUpdate list \<Rightarrow> HMRServer \<Rightarrow> HMRServer" where
  "notifyClients env updates srv =
     fold (\<lambda>u s. fold (\<lambda>client s'. send env client (UpdateMessage u) s') (clients u) s) updates srv"

definition notifyError :: "Env \<Rightarrow> string \<Rightarrow> JsError \<Rightarrow> HMRServer \<Rightarrow> HMRServer" where
  "notifyError env f err srv =
     fold (\<lambda>client s. send env client (ErrorMessage f (message err) (stack err) (now env)) s)
       (wss_clients srv) srv"

definition processUpdate :: "Env \<Rightarrow> string \<Rightarrow> HMRServer \<Rightarrow> HMRServer" where
  "processUpdate env f srv =
     (case transformModule env srv f of
        Inr (newCode, srv1) \<Rightarrow>
          (let updateChain = getUpdateChain (moduleGraph srv1) f;
               updates = calculateUpdates env srv1 updateChain
           in notifyClients env updates srv1)
      | Inl err \<Rightarrow>
          notifyError env f err
            (srv\<lparr>console := console srv @ [''Error processing update for '' @ f @ '':'']\<rparr>))"

section \<open>The client runtime (hmr-runtime.ts)\<close>

text \<open>
  A callback registered by user code is a function on the state of the page \<open>'w\<close>: it
  returns the state it leaves behind and, if it throws, the error. An accept callback
  also takes the new module namespace \<open>'m\<close>. \<open>'d\<close> is the type of \<^verbatim>\<open>hot.data\<close>.
\<close>

type_synonym 'w Callback = "'w \<Rightarrow> 'w \<times> string option"

record ('w, 'm, 'd) HotModuleState =
  hot_data :: "'d option"
  hot_acceptCallbacks :: "('m \<Rightarrow> 'w Callback) list"
  hot_disposeCallbacks :: "'w Callback list"
  isAccepted :: bool
  isDeclined :: bool
  hot_events :: "(string \<times> 'w Callback list) list option"

text \<open>
  An entry of \<^verbatim>\<open>state.modules\<close>. \<open>module_exports\<close> is \<open>None\<close> for the empty object the
  record is created with.
\<close>

record ('w, 'm, 'd) ModuleRecord =
  module_hot :: "('w, 'm, 'd) HotModuleState"
  module_exports :: "'m option"
  acceptCallbacks :: "('m \<Rightarrow> 'w Callback) list"
  disposeCallbacks :: "'w Callback list"

text \<open>
  The state of the runtime, with the state of the page the callbacks act on and what
  \<^verbatim>\<open>console.error\<close> was called with: the text and the error.
\<close>

record ('w, 'm, 'd) HMRState =
  client_modules :: "string \<Rightarrow> ('w, 'm, 'd) ModuleRecord option"
  pendingUpdates :: "string list"
  isApplyingUpdates :: bool
  page :: 'w
  client_console :: "(string \<times> string) list"

definition new_ModuleRecord :: "('w, 'm, 'd) ModuleRecord" where
  "new_ModuleRecord =
     \<lparr>module_hot = \<lparr>hot_data = None, hot_acceptCallbacks = [], hot_disposeCallbacks = [],
                     isAccepted = False, isDeclined = False, hot_events = None\<rparr>,
      module_exports = None, acceptCallbacks = [], disposeCallbacks = []\<rparr>"

definition createHotContext :: "string \<Rightarrow> ('w, 'm, 'd) HMRState \<Rightarrow> ('w, 'm, 'd) HMRState" where
  "createHotContext i st =
     (if client_modules st i = None
      then st\<lparr>client_modules := (client_modules st)(i \<mapsto> new_ModuleRecord)\<rparr>
      else st)"

text \<open>
  The methods of the \<^verbatim>\<open>hot\<close> object act on the record \<^verbatim>\<open>moduleState\<close> their closure
  holds. \<^verbatim>\<open>accept(callback?)\<close> takes \<open>None\<close> when it is called with no argument.
\<close>

definition hot_accept :: "('m \<Rightarrow> 'w Callback) option \<Rightarrow> ('w, 'm, 'd) ModuleRecord
    \<Rightarrow> ('w, 'm, 'd) ModuleRecord" where
  "hot_accept callback moduleState =
     (case callback of
        Some cb \<Rightarrow> moduleState\<lparr>acceptCallbacks := acceptCallbacks moduleState @ [cb]\<rparr>
      | None \<Rightarrow> moduleState\<lparr>module_hot := (module_hot moduleState)\<lparr>isAccepted := True\<rparr>\<rparr>)"

definition hot_decline :: "('w, 'm, 'd) ModuleRecord \<Rightarrow> ('w, 'm, 'd) ModuleRecord" where
  "hot_decline moduleState =
     moduleState\<lparr>module_hot := (module_hot moduleState)\<lparr>isDeclined := True\<rparr>\<rparr>"

definition hot_dispose :: "'w Callback \<Rightarrow> ('w, 'm, 'd) ModuleRecord \<Rightarrow> ('w, 'm, 'd) ModuleRecord"
  where
  "hot_dispose callback moduleState =
     moduleState\<lparr>disposeCallbacks := disposeCallbacks moduleState @ [callback]\<rparr>"

text \<open>
  \<^verbatim>\<open>callbacks.forEach((cb) => cb())\<close>: the callbacks run from the first on; an exception
  leaves the loop.
\<close>

fun forEach_call :: "'w Callback list \<Rightarrow> 'w Callback" where
  "forEach_call [] w = (w, None)"
| "forEach_call (cb # cbs) w =
     (case cb w of
        (w1, Some err) \<Rightarrow> (w1, Some err)
      | (w1, None) \<Rightarrow> forEach_call cbs w1)"

text \<open>
  \<^verbatim>\<open>applyUpdate(file)\<close>. The dynamic \<^verbatim>\<open>import\<close> of the file with the cache-busting time
  stamp is the parameter \<open>import_module\<close>: it evaluates the module on the page and returns
  its namespace, or the error it throws. \<open>update_in_try\<close> is the \<^verbatim>\<open>try\<close> block of
  \<^verbatim>\<open>applyUpdate\<close> with its \<^verbatim>\<open>catch\<close>: whatever is thrown there is logged.
\<close>

definition update_in_try :: "(string \<Rightarrow> nat \<Rightarrow> 'w \<Rightarrow> 'w \<times> (string + 'm)) \<Rightarrow> nat \<Rightarrow> string
    \<Rightarrow> ('w, 'm, 'd) ModuleRecord \<Rightarrow> 'd option \<Rightarrow> ('w, 'm, 'd) HMRState
    \<Rightarrow> ('w, 'm, 'd) HMRState" where
  "update_in_try import_module t f moduleState hotData st =
     (case import_module f t (page st) of
        (w2, Inl err) \<Rightarrow>
          st\<lparr>page := w2,
              client_console := client_console st @ [(''[HMR] Failed to update '' @ f @ '':'', err)]\<rparr>
      | (w2, Inr newModule) \<Rightarrow>
          (let m1 = moduleState\<lparr>module_exports := Some newModule,
                      module_hot := (module_hot moduleState)\<lparr>hot_data := hotData\<rparr>\<rparr>;
               st1 = st\<lparr>client_modules := (client_modules st)(f \<mapsto> m1)\<rparr>
           in case forEach_call (map (\<lambda>cb. cb newModule) (acceptCallbacks m1)) w2 of
                (w3, Some err) \<Rightarrow>
                  st1\<lparr>page := w3,
                       client_console := client_console st @ [(''[HMR] Failed to update '' @ f @ '':'', err)]\<rparr>
              | (w3, None) \<Rightarrow> st1\<lparr>page := w3\<rparr>))"

text \<open>
  The second component of the result of \<open>applyUpdate\<close> is the exception that leaves
  \<^verbatim>\<open>applyUpdate\<close> (its promise is rejected), if any.
\<close>

definition applyUpdate :: "(string \<Rightarrow> nat \<Rightarrow> 'w \<Rightarrow> 'w \<times> (string + 'm)) \<Rightarrow> nat \<Rightarrow> string
    \<Rightarrow> ('w, 'm, 'd) HMRState \<Rightarrow> ('w, 'm, 'd) HMRState \<times> string option" where
  "applyUpdate import_module t f st =
     (case client_modules st f of
        None \<Rightarrow> (st, None)
      | Some moduleState \<Rightarrow>
          (case forEach_call (disposeCallbacks moduleState) (page st) of
             (w1, Some err) \<Rightarrow> (st\<lparr>page := w1\<rparr>, Some err)
           | (w1, None) \<Rightarrow>
               (let hotData = hot_data (module_hot moduleState)
                in (update_in_try import_module t f moduleState hotData (st\<lparr>page := w1\<rparr>),
                    None))))"

section \<open>The update batcher (update-batcher.ts)\<close>

datatype UpdatePriority = High | Normal | Low

text \<open>
  A job holds the \<^verbatim>\<open>resolve\<close> and \<^verbatim>\<open>reject\<close> functions of its promise: \<open>job_promise\<close> is
  that promise.
\<close>

record UpdateJob =
  job_file :: string
  job_priority :: UpdatePriority
  job_timestamp :: nat
  job_promise :: nat

subsection \<open>Promises and the job queue of the host\<close>

text \<open>
  \<^verbatim>\<open>enqueue\<close>, \<^verbatim>\<open>processQueue\<close>, \<^verbatim>\<open>worker\<close> and \<^verbatim>\<open>processBatch\<close> are \<^verbatim>\<open>async\<close> functions, and
  what the batcher does depends on the order in which their continuations run. So the model keeps the
  promises and the queue of promise jobs of the JavaScript host. A promise is known by its
  index in \<open>promises\<close>. An outcome is \<open>None\<close> for a fulfilment and \<open>Some err\<close> for a
  rejection with the error \<open>err\<close>.

  A reaction is what was registered on a promise by \<^verbatim>\<open>then\<close> or by \<^verbatim>\<open>await\<close>:
  \<^item> \<open>ResolveOuter o\<close>: the resolving functions of the promise \<open>o\<close> that a call of the
    \<^verbatim>\<open>async\<close> method \<^verbatim>\<open>enqueue\<close> has returned;
  \<^item> \<open>AllElement pa\<close>: the element functions of the promise \<open>pa\<close> made by \<^verbatim>\<open>Promise.all\<close>;
  \<^item> \<open>ProcessBatchResume batch pb\<close>: \<^verbatim>\<open>processBatch(batch)\<close> after its \<^verbatim>\<open>await\<close>, where
    \<open>pb\<close> is the promise the call has returned;
  \<^item> \<open>WorkerResume batch w\<close>: \<^verbatim>\<open>worker\<close> after \<^verbatim>\<open>await this.processBatch(batch)\<close>, where \<open>w\<close>
    is the promise the call of \<^verbatim>\<open>worker\<close> has returned;
  \<^item> \<open>ProcessQueueResume\<close>: \<^verbatim>\<open>processQueue\<close> after \<^verbatim>\<open>await Promise.all(workers)\<close>;
  \<^item> \<open>CallerResume rest\<close>: code outside the batcher that awaits the promise \<^verbatim>\<open>enqueue\<close> has
    returned, and what it does next.

  Code outside the batcher is a list of calls of \<^verbatim>\<open>enqueue\<close>: \<open>Fire\<close> for a call whose
  promise is dropped, \<open>Await\<close> for \<^verbatim>\<open>await batcher.enqueue(file, priority)\<close>.
\<close>

datatype PromiseState = Pending | Fulfilled | Rejected string

datatype CallerStep = Fire string UpdatePriority | Await string UpdatePriority

datatype Reaction =
    ResolveOuter nat
  | AllElement nat
  | ProcessBatchResume "UpdateJob list" nat
  | WorkerResume "UpdateJob list" nat
  | ProcessQueueResume
  | CallerResume "CallerStep list"

text \<open>
  A promise job: a reaction with the outcome of its promise, or the job that resolves
  the promise \<open>o\<close> of an \<^verbatim>\<open>async\<close> function with the promise \<open>p\<close> its body has returned
  (\<open>ThenableJob p o\<close>: it calls \<^verbatim>\<open>p.then\<close> with the resolving functions of \<open>o\<close>).
\<close>

datatype PromiseJob = React Reaction "string option" | ThenableJob nat nat

text \<open>
  What happened, in order: a call of \<^verbatim>\<open>enqueue\<close> for a file (with \<open>True\<close> when it added
  a job), a call of the handler for a file, the settling of a handler call, a worker
  leaving its loop, and \<^verbatim>\<open>processQueue\<close> clearing \<^verbatim>\<open>isProcessing\<close>.
\<close>

datatype Happening =
    Enqueued string bool
  | Invoked string
  | Completed string
  | WorkerReturned
  | ProcessingEnded

text \<open>
  The two console calls: \<^verbatim>\<open>console.log(`Processing batch of ${files.length} files:`, files)\<close>
  and \<^verbatim>\<open>console.error("Error processing batch:", err)\<close>.
\<close>

datatype ConsoleLine = ProcessingBatch nat "string list" | ErrorProcessingBatch string

text \<open>
  \<open>remaining\<close> is the count of elements each \<^verbatim>\<open>Promise.all\<close> still waits for; \<open>handlers\<close>
  holds the handler calls that have not settled, with their file; \<open>handles\<close> lists the
  promises the calls of \<^verbatim>\<open>enqueue\<close> have returned; \<open>clock\<close> is \<^verbatim>\<open>Date.now()\<close>.
\<close>

record UpdateBatcher =
  queue :: "UpdateJob list"
  isProcessing :: bool
  pendingPromises :: "(string \<times> nat) list"
  promises :: "PromiseState list"
  reactions :: "(nat \<times> Reaction) list"
  remaining :: "(nat \<times> nat) list"
  promiseJobs :: "PromiseJob list"
  handlers :: "(nat \<times> string) list"
  handles :: "nat list"
  clock :: nat
  history :: "Happening list"
  batcher_console :: "ConsoleLine list"

definition new_UpdateBatcher :: UpdateBatcher where
  "new_UpdateBatcher = \<lparr>queue = [], isProcessing = False, pendingPromises = [], promises = [],
     reactions = [], remaining = [], promiseJobs = [], handlers = [], handles = [], clock = 0,
     history = [], batcher_console = []\<rparr>"

definition new_Promise :: "UpdateBatcher \<Rightarrow> nat \<times> UpdateBatcher" where
  "new_Promise s = (length (promises s), s\<lparr>promises := promises s @ [Pending]\<rparr>)"

text \<open>
  Settling a pending promise queues one job for each reaction registered on it, in the
  order of registration; settling a settled promise does nothing.
\<close>

definition settle :: "nat \<Rightarrow> string option \<Rightarrow> UpdateBatcher \<Rightarrow> UpdateBatcher" where
  "settle p outcome s =
     (if p < length (promises s) \<and> promises s ! p = Pending
      then s\<lparr>promises := (promises s)[p := (case outcome of None \<Rightarrow> Fulfilled
                                                | Some err \<Rightarrow> Rejected err)],
             promiseJobs := promiseJobs s @
                              map (\<lambda>(q, r). React r outcome)
                                (filter (\<lambda>(q, r). q = p) (reactions s)),
             reactions := filter (\<lambda>(q, r). q \<noteq> p) (reactions s)\<rparr>
      else s)"

text \<open>
  \<^verbatim>\<open>p.then(...)\<close> and \<^verbatim>\<open>await p\<close>: the reaction is registered on a pending promise, and
  queued at once as a job on a settled one.
\<close>

definition subscribe :: "nat \<Rightarrow> Reaction \<Rightarrow> UpdateBatcher \<Rightarrow> UpdateBatcher" where
  "subscribe p r s =
     (if p < length (promises s)
      then (case promises s ! p of
              Pending \<Rightarrow> s\<lparr>reactions := reactions s @ [(p, r)]\<rparr>
            | Fulfilled \<Rightarrow> s\<lparr>promiseJobs := promiseJobs s @ [React r None]\<rparr>
            | Rejected err \<Rightarrow> s\<lparr>promiseJobs := promiseJobs s @ [React r (Some err)]\<rparr>)
      else s)"

text \<open>
  \<^verbatim>\<open>Promise.all(ps)\<close>: a new promise that is fulfilled when every element is, and rejected
  with the first rejection. For an empty list it is fulfilled at once.
\<close>

definition Promise_all :: "nat list \<Rightarrow> UpdateBatcher \<Rightarrow> nat \<times> UpdateBatcher" where
  "Promise_all ps s =
     (let (pa, s1) = new_Promise s;
          s2 = s1\<lparr>remaining := AList.update pa (length ps) (remaining s1)\<rparr>;
          s3 = fold (\<lambda>p. subscribe p (AllElement pa)) ps s2
      in (pa, if ps = [] then settle pa None s3 else s3))"

definition all_element :: "nat \<Rightarrow> string option \<Rightarrow> UpdateBatcher \<Rightarrow> UpdateBatcher" where
  "all_element pa outcome s =
     (case outcome of
        Some err \<Rightarrow> settle pa (Some err) s
      | None \<Rightarrow>
          (case map_of (remaining s) pa of
             None \<Rightarrow> s
           | Some n \<Rightarrow>
               (let s1 = s\<lparr>remaining := AList.update pa (n - 1) (remaining s)\<rparr>
                in if n - 1 = 0 then settle pa None s1 else s1)))"

subsection \<open>The batcher\<close>

text \<open>
  The options after the constructor has filled in the defaults, and the order of the
  priority queue: \<^verbatim>\<open>PriorityQueue\<close> comes from the library typescript-collections, so the
  position of the job that \<^verbatim>\<open>peek\<close> and \<^verbatim>\<open>dequeue\<close> return is the parameter \<open>head_of\<close>
  (cut to the length of the queue). \<open>compare_jobs\<close> is the comparison the batcher hands
  to the library.
\<close>

record BatcherOptions =
  concurrency :: nat
  batchWindow :: nat
  head_of :: "UpdateJob list \<Rightarrow> nat"

definition UpdateBatcher_options :: "nat \<Rightarrow> nat \<Rightarrow> (UpdateJob list \<Rightarrow> nat) \<Rightarrow> BatcherOptions" where
  "UpdateBatcher_options c w h =
     \<lparr>concurrency = (if c = 0 then 4 else c), batchWindow = (if w = 0 then 100 else w),
      head_of = h\<rparr>"

definition compare_jobs :: "UpdateJob \<Rightarrow> UpdateJob \<Rightarrow> int" where
  "compare_jobs a b =
     (if job_priority a \<noteq> job_priority b
      then (if job_priority a = High then -1
            else if job_priority a = Normal \<and> job_priority b = Low then -1
            else 1)
      else int (job_timestamp a) - int (job_timestamp b))"

definition head_index :: "BatcherOptions \<Rightarrow> UpdateJob list \<Rightarrow> nat" where
  "head_index opts q = min (head_of opts q) (length q - 1)"

definition remove_nth :: "nat \<Rightarrow> 'a list \<Rightarrow> 'a list" where
  "remove_nth i xs = take i xs @ drop (Suc i) xs"

text \<open>
  \<^verbatim>\<open>collectBatch\<close>: the loop runs while the queue is not empty and the batch holds fewer
  than ten jobs; \<open>room\<close> counts the places left in the batch.
\<close>

fun collect_loop :: "BatcherOptions \<Rightarrow> nat \<Rightarrow> nat \<Rightarrow> UpdateJob list \<Rightarrow> UpdateJob list
    \<Rightarrow> UpdateJob list \<times> UpdateJob list" where
  "collect_loop opts t 0 batch q = (batch, q)"
| "collect_loop opts t (Suc room) batch q =
     (if q = [] then (batch, q)
      else (let i = head_index opts q; job = q ! i
            in if batch = [] \<or>
                  (int t - int (job_timestamp job) < int (batchWindow opts) \<and>
                   job_priority (hd batch) = job_priority job)
               then collect_loop opts t room (batch @ [job]) (remove_nth i q)
               else (batch, q)))"

definition collectBatch :: "BatcherOptions \<Rightarrow> nat \<Rightarrow> UpdateJob list
    \<Rightarrow> UpdateJob list \<times> UpdateJob list" where
  "collectBatch opts t q = collect_loop opts t 10 [] q"

text \<open>
  A call of the handler: it returns a promise that is pending and settles in a later task
  (the handler of server/index.ts is an \<^verbatim>\<open>async\<close> function that first awaits the read of
  the file).
\<close>

definition call_handler :: "UpdateJob \<Rightarrow> nat list \<times> UpdateBatcher \<Rightarrow> nat list \<times> UpdateBatcher" where
  "call_handler job acc =
     (let (hs, s) = acc;
          (h, s1) = new_Promise s
      in (hs @ [h],
          s1\<lparr>handlers := handlers s1 @ [(h, job_file job)],
             history := history s1 @ [Invoked (job_file job)]\<rparr>))"

text \<open>
  \<^verbatim>\<open>processBatch(batch)\<close> up to its \<^verbatim>\<open>await\<close>: it logs the files, calls the handler for
  every job, and waits for \<^verbatim>\<open>Promise.all\<close> of the handler promises. The result is the
  promise the call returns.
\<close>

definition processBatch :: "UpdateJob list \<Rightarrow> UpdateBatcher \<Rightarrow> nat \<times> UpdateBatcher" where
  "processBatch batch s =
     (let (pb, s1) = new_Promise s;
          s2 = s1\<lparr>batcher_console := batcher_console s1 @
                     [ProcessingBatch (length batch) (map job_file batch)]\<rparr>;
          (hs, s3) = fold call_handler batch ([], s2);
          (pa, s4) = Promise_all hs s3
      in (pb, subscribe pa (ProcessBatchResume batch pb) s4))"

text \<open>
  \<^verbatim>\<open>processBatch\<close> after its \<^verbatim>\<open>await\<close>. When \<^verbatim>\<open>Promise.all\<close> was fulfilled, every job is
  resolved and its file leaves \<^verbatim>\<open>pendingPromises\<close>, and the call is fulfilled. When it was
  rejected, the files leave \<^verbatim>\<open>pendingPromises\<close> and the error is thrown again: the call is
  rejected.
\<close>

definition processBatch_resume :: "UpdateJob list \<Rightarrow> nat \<Rightarrow> string option \<Rightarrow> UpdateBatcher
    \<Rightarrow> UpdateBatcher" where
  "processBatch_resume batch pb outcome s =
     (case outcome of
        None \<Rightarrow>
          settle pb None
            (fold (\<lambda>job s'. (settle (job_promise job) None s')
                      \<lparr>pendingPromises := AList.delete (job_file job)
                                            (pendingPromises (settle (job_promise job) None s'))\<rparr>)
               batch s)
      | Some err \<Rightarrow>
          settle pb (Some err)
            (fold (\<lambda>job s'. s'\<lparr>pendingPromises := AList.delete (job_file job) (pendingPromises s')\<rparr>)
               batch s))"

text \<open>
  \<open>worker_loop w\<close> is a worker from the top of its \<^verbatim>\<open>while\<close> loop to the point where it
  waits or returns; \<open>w\<close> is the promise the call of \<^verbatim>\<open>worker\<close> has returned. With an empty
  queue the worker returns, and \<open>w\<close> is fulfilled. Otherwise it collects a batch and waits
  for \<^verbatim>\<open>processBatch\<close>. (\<^verbatim>\<open>collectBatch\<close> always takes the first job, so the \<^verbatim>\<open>continue\<close>
  for an empty batch is never reached with a queue that is not empty.)
\<close>

definition worker_loop :: "BatcherOptions \<Rightarrow> nat \<Rightarrow> UpdateBatcher \<Rightarrow> UpdateBatcher" where
  "worker_loop opts w s =
     (if queue s = [] then settle w None (s\<lparr>history := history s @ [WorkerReturned]\<rparr>)
      else (let (batch, q) = collectBatch opts (clock s) (queue s);
                s1 = s\<lparr>queue := q\<rparr>
            in if batch = [] then s1
               else (let (pb, s2) = processBatch batch s1
                     in subscribe pb (WorkerResume batch w) s2)))"

text \<open>
  \<^verbatim>\<open>worker\<close> after \<^verbatim>\<open>await this.processBatch(batch)\<close>: when the call was rejected, the
  \<^verbatim>\<open>catch\<close> block logs the error and rejects every job of the batch; then the loop goes on.
\<close>

definition worker_resume :: "BatcherOptions \<Rightarrow> UpdateJob list \<Rightarrow> nat \<Rightarrow> string option
    \<Rightarrow> UpdateBatcher \<Rightarrow> UpdateBatcher" where
  "worker_resume opts batch w outcome s =
     (case outcome of
        None \<Rightarrow> worker_loop opts w s
      | Some err \<Rightarrow>
          worker_loop opts w
            (fold (\<lambda>job. settle (job_promise job) (Some err)) batch
               (s\<lparr>batcher_console := batcher_console s @ [ErrorProcessingBatch err]\<rparr>)))"

text \<open>A call of \<^verbatim>\<open>worker()\<close>: the promise it returns, after it has run to its first wait.\<close>

definition call_worker :: "BatcherOptions \<Rightarrow> nat list \<times> UpdateBatcher \<Rightarrow> nat list \<times> UpdateBatcher"
  where
  "call_worker opts acc =
     (let (ws, s) = acc;
          (w, s1) = new_Promise s
      in (ws @ [w], worker_loop opts w s1))"

text \<open>
  \<^verbatim>\<open>processQueue\<close> up to its \<^verbatim>\<open>await\<close>: it sets \<^verbatim>\<open>isProcessing\<close>, starts the workers one
  after the other, and waits for all of them. (Nothing holds the promise that
  \<^verbatim>\<open>processQueue\<close> itself returns; it is left out.)
\<close>

definition processQueue :: "BatcherOptions \<Rightarrow> UpdateBatcher \<Rightarrow> UpdateBatcher" where
  "processQueue opts s =
     (let (ws, s1) = (call_worker opts ^^ concurrency opts) ([], s\<lparr>isProcessing := True\<rparr>);
          (pa, s2) = Promise_all ws s1
      in subscribe pa ProcessQueueResume s2)"

text \<open>\<^verbatim>\<open>processQueue\<close> after its \<^verbatim>\<open>await\<close>. (No worker is ever rejected.)\<close>

definition processQueue_resume :: "string option \<Rightarrow> UpdateBatcher \<Rightarrow> UpdateBatcher" where
  "processQueue_resume outcome s =
     (case outcome of
        None \<Rightarrow> s\<lparr>isProcessing := False, history := history s @ [ProcessingEnded]\<rparr>
      | Some err \<Rightarrow> s)"

text \<open>
  A call of \<^verbatim>\<open>enqueue(file, priority)\<close>: the promise it returns, and the new state.
  \<^verbatim>\<open>enqueue\<close> is an \<^verbatim>\<open>async\<close> method: every call returns a promise of its own (\<open>outer\<close>),
  which is resolved with the promise the body returns, by a promise job.
\<close>

definition enqueue :: "BatcherOptions \<Rightarrow> string \<Rightarrow> UpdatePriority \<Rightarrow> UpdateBatcher
    \<Rightarrow> nat \<times> UpdateBatcher" where
  "enqueue opts f priority s =
     (let (outer, s0) = new_Promise s
      in case map_of (pendingPromises s0) f of
           Some pending \<Rightarrow>
             (outer, s0\<lparr>promiseJobs := promiseJobs s0 @ [ThenableJob pending outer],
                        handles := handles s0 @ [outer],
                        history := history s0 @ [Enqueued f False]\<rparr>)
         | None \<Rightarrow>
             (let (promise, s1) = new_Promise s0;
                  s2 = s1\<lparr>pendingPromises := AList.update f promise (pendingPromises s1),
                         queue := queue s1 @ [\<lparr>job_file = f, job_priority = priority,
                                               job_timestamp = clock s1, job_promise = promise\<rparr>],
                         history := history s1 @ [Enqueued f True]\<rparr>;
                  s3 = (if \<not> isProcessing s2 then processQueue opts s2 else s2)
              in (outer, s3\<lparr>promiseJobs := promiseJobs s3 @ [ThenableJob promise outer],
                            handles := handles s3 @ [outer]\<rparr>)))"

text \<open>
  Code outside the batcher, up to its first \<^verbatim>\<open>await\<close>. When the awaited promise is
  rejected, the caller stops.
\<close>

fun run_caller :: "BatcherOptions \<Rightarrow> CallerStep list \<Rightarrow> UpdateBatcher \<Rightarrow> UpdateBatcher" where
  "run_caller opts [] s = s"
| "run_caller opts (Fire f priority # rest) s = run_caller opts rest (snd (enqueue opts f priority s))"
| "run_caller opts (Await f priority # rest) s =
     (let (outer, s1) = enqueue opts f priority s in subscribe outer (CallerResume rest) s1)"

subsection \<open>Running the promise jobs\<close>

fun run_reaction :: "BatcherOptions \<Rightarrow> Reaction \<Rightarrow> string option \<Rightarrow> UpdateBatcher \<Rightarrow> UpdateBatcher"
  where
  "run_reaction opts (ResolveOuter outer) outcome s = settle outer outcome s"
| "run_reaction opts (AllElement pa) outcome s = all_element pa outcome s"
| "run_reaction opts (ProcessBatchResume batch pb) outcome s = processBatch_resume batch pb outcome s"
| "run_reaction opts (WorkerResume batch w) outcome s = worker_resume opts batch w outcome s"
| "run_reaction opts ProcessQueueResume outcome s = processQueue_resume outcome s"
| "run_reaction opts (CallerResume rest) outcome s =
     (case outcome of None \<Rightarrow> run_caller opts rest s | Some err \<Rightarrow> s)"

fun run_job :: "BatcherOptions \<Rightarrow> PromiseJob \<Rightarrow> UpdateBatcher \<Rightarrow> UpdateBatcher" where
  "run_job opts (React r outcome) s = run_reaction opts r outcome s"
| "run_job opts (ThenableJob p outer) s = subscribe p (ResolveOuter outer) s"

text \<open>
  The host runs the promise jobs in the order they were queued, until none is left. The
  first argument bounds the number of jobs; the result is \<open>None\<close> when it does not suffice.
\<close>

fun drain :: "nat \<Rightarrow> BatcherOptions \<Rightarrow> UpdateBatcher \<Rightarrow> UpdateBatcher option" where
  "drain n opts s =
     (case promiseJobs s of
        [] \<Rightarrow> Some s
      | job # jobs \<Rightarrow>
          (case n of
             0 \<Rightarrow> None
           | Suc m \<Rightarrow> drain m opts (run_job opts job (s\<lparr>promiseJobs := jobs\<rparr>))))"

text \<open>
  A task of the host, at the time it starts: code outside the batcher runs, or the
  handler call with promise \<open>h\<close> settles. After the task the promise jobs run. The settling
  of a promise that is no running handler call is no event of the batcher.
\<close>

datatype BatcherEvent =
    Call "CallerStep list" nat
  | HandlerSettles nat "string option" nat

fun batcher_task :: "BatcherOptions \<Rightarrow> BatcherEvent \<Rightarrow> UpdateBatcher \<Rightarrow> UpdateBatcher" where
  "batcher_task opts (Call steps t) s = run_caller opts steps (s\<lparr>clock := t\<rparr>)"
| "batcher_task opts (HandlerSettles h outcome t) s =
     (case map_of (handlers s) h of
        None \<Rightarrow> s
      | Some f \<Rightarrow>
          settle h outcome
            (s\<lparr>clock := t, handlers := AList.delete h (handlers s),
               history := history s @ [Completed f]\<rparr>))"

definition batcher_step :: "nat \<Rightarrow> BatcherOptions \<Rightarrow> BatcherEvent \<Rightarrow> UpdateBatcher
    \<Rightarrow> UpdateBatcher option" where
  "batcher_step n opts ev s = drain n opts (batcher_task opts ev s)"

fun batcher_steps :: "nat \<Rightarrow> BatcherOptions \<Rightarrow> BatcherEvent list \<Rightarrow> UpdateBatcher
    \<Rightarrow> UpdateBatcher option" where
  "batcher_steps n opts [] s = Some s"
| "batcher_steps n opts (ev # evs) s =
     (case batcher_step n opts ev s of
        None \<Rightarrow> None
      | Some s1 \<Rightarrow> batcher_steps n opts evs s1)"

definition batcher_run :: "nat \<Rightarrow> BatcherOptions \<Rightarrow> BatcherEvent list \<Rightarrow> UpdateBatcher option" where
  "batcher_run n opts evs = batcher_steps n opts evs new_UpdateBatcher"

section \<open>Node-level edge sets\<close>

definition node_sets_empty :: "ModuleGraph \<Rightarrow> bool" where
  "node_sets_empty g =
     (\<forall>(k, n) \<in> set (modules g). node_imports n = [] \<and> node_importers n = [])"

lemma updateDependencies_modules:
  "modules (updateDependencies g i new old) = modules g"
  by (simp add: updateDependencies_def Let_def)

lemma set_update_subset:
  "set (AList.update k v al) \<subseteq> insert (k, v) (set al)"
  by (induction al) auto

lemma updateModule_node_sets_empty:
  assumes "node_sets_empty g"
  shows "node_sets_empty (updateModule parseImports g i code h)"
proof -
  have old: "\<And>n. getModule g i = Some n \<Longrightarrow> node_imports n = [] \<and> node_importers n = []"
    using assms by (auto simp: node_sets_empty_def getModule_def dest: map_of_SomeD)
  show ?thesis
    unfolding node_sets_empty_def
  proof (clarify)
    fix k n
    assume "(k, n) \<in> set (modules (updateModule parseImports g i code h))"
    then have "(k, n) \<in> set (modules g) \<or>
        (\<exists>m. (getModule g i = Some m \<or> (node_imports m = [] \<and> node_importers m = [])) \<and>
             node_imports n = node_imports m \<and> node_importers n = node_importers m)"
      using set_update_subset[of i _ "modules g"]
      by (fastforce simp: updateModule_def Let_def updateDependencies_modules createProxy_def
          split: option.splits if_splits)
    then show "node_imports n = [] \<and> node_importers n = []"
      using assms old by (auto simp: node_sets_empty_def)
  qed
qed

lemma updateModules_node_sets_empty:
  "node_sets_empty g \<Longrightarrow> node_sets_empty (updateModules parseImports calls g)"
  unfolding updateModules_def
  by (induction calls arbitrary: g) (auto simp: updateModule_node_sets_empty)

lemma new_ModuleGraph_node_sets_empty: "node_sets_empty new_ModuleGraph"
  by (simp add: node_sets_empty_def new_ModuleGraph_def)

text \<open>
  C1. After any sequence of \<^verbatim>\<open>updateModule\<close> calls on a new graph, for all nodes \<open>a\<close>
  and \<open>b\<close> of the graph, \<open>b\<close> is in the \<^verbatim>\<open>imports\<close> set of the node \<open>a\<close> if and only if
  \<open>a\<close> is in the \<^verbatim>\<open>importers\<close> set of the node \<open>b\<close>.
\<close>

theorem node_imports_importers_consistent:
  assumes "g = updateModules parseImports calls new_ModuleGraph"
    and "getModule g a = Some na" and "getModule g b = Some nb"
  shows "b \<in> set (node_imports na) \<longleftrightarrow> a \<in> set (node_importers nb)"
proof -
  have "node_sets_empty g"
    using assms(1) by (simp add: updateModules_node_sets_empty new_ModuleGraph_node_sets_empty)
  then have "node_imports na = []" and "node_importers nb = []"
    using assms(2,3) by (auto simp: node_sets_empty_def getModule_def dest: map_of_SomeD)
  then show ?thesis by simp
qed

lemmas graph_eval = updateModules_def updateModule_def updateDependencies_def add_dependent_def
  remove_dependent_def new_Set_def set_add_def set_delete_def map_has_def getModule_def
  getDependents_def createProxy_def letters_def new_ModuleGraph_def Let_def

theorem node_imports_importers_consistent_witness:
  "getModule (updateModules letters [(''a'', ''b'', True), (''b'', ''a'', True)] new_ModuleGraph) ''a''
     \<noteq> None \<and>
   getModule (updateModules letters [(''a'', ''b'', True), (''b'', ''a'', True)] new_ModuleGraph) ''b''
     \<noteq> None \<and>
   (''b'' \<in> set (node_imports (the (getModule
       (updateModules letters [(''a'', ''b'', True), (''b'', ''a'', True)] new_ModuleGraph) ''a'')))
    \<longleftrightarrow>
    ''a'' \<in> set (node_importers (the (getModule
       (updateModules letters [(''a'', ''b'', True), (''b'', ''a'', True)] new_ModuleGraph) ''b''))))"
proof -
  let ?g = "updateModules letters [(''a'', ''b'', True), (''b'', ''a'', True)] new_ModuleGraph"
  obtain na where a: "getModule ?g ''a'' = Some na" by (simp add: graph_eval)
  obtain nb where b: "getModule ?g ''b'' = Some nb" by (simp add: graph_eval)
  from node_imports_importers_consistent[OF refl a b] a b show ?thesis by simp
qed

section \<open>Modules are never dropped\<close>

definition prune_before :: ModuleGraph where
  "prune_before = updateModules letters [(''b'', '''', True), (''a'', ''b'', True)] new_ModuleGraph"

definition prune_after :: ModuleGraph where
  "prune_after = updateModule letters prune_before ''a'' '''' True"

text \<open>
  C5, as stated, fails: module \<open>a\<close> imports \<open>b\<close> and is then updated to import nothing.
  The forward edge from \<open>a\<close> to \<open>b\<close> is gone, no module imports \<open>b\<close>, the
  \<^verbatim>\<open>importers\<close> set of the node \<open>b\<close> is empty, and \<^verbatim>\<open>getModule("b")\<close> still returns the
  node.
\<close>

theorem prune_counterexample:
  "dependencyGraph prune_before = [(''b'', []), (''a'', [''b''])] \<and>
   dependencyGraph prune_after = [(''b'', []), (''a'', [])] \<and>
   map_option node_importers (getModule prune_after ''b'') = Some [] \<and>
   getModule prune_after ''b'' \<noteq> None"
  by (simp add: prune_before_def prune_after_def graph_eval)

text \<open>
  C5, amended. \<^verbatim>\<open>updateModule\<close> never drops a module: after \<^verbatim>\<open>updateModule(id, ...)\<close>,
  \<^verbatim>\<open>getModule(id)\<close> is defined, and \<^verbatim>\<open>getModule(t)\<close> for every other \<open>t\<close> returns the node
  it returned before the call.
\<close>

theorem updateModule_keeps_modules:
  "getModule (updateModule parseImports g i code h) i \<noteq> None \<and>
   (t \<noteq> i \<longrightarrow> getModule (updateModule parseImports g i code h) t = getModule g t)"
  by (simp add: updateModule_def Let_def getModule_def updateDependencies_modules update_conv')

theorem updateModule_keeps_modules_witness:
  "getModule (updateModule letters prune_before ''a'' '''' True) ''a'' \<noteq> None \<and>
   ''b'' \<noteq> ''a'' \<and>
   getModule (updateModule letters prune_before ''a'' '''' True) ''b'' = getModule prune_before ''b'' \<and>
   getModule prune_before ''b'' \<noteq> None"
proof -
  have "getModule prune_before ''b'' \<noteq> None"
    by (simp add: prune_before_def graph_eval)
  then show ?thesis
    using updateModule_keeps_modules[of letters prune_before "''a''" "''''" True "''b''"] by simp
qed

section \<open>The update chain\<close>

text \<open>
  The import edges: \<open>(u, v)\<close> when \<open>v\<close> is in the set \<^verbatim>\<open>dependencyGraph\<close> holds for \<open>u\<close>, that
  is, when the last \<^verbatim>\<open>updateModule\<close> call for \<open>u\<close> found an import of \<open>v\<close>.
\<close>

definition edges_of :: "(string \<times> string list) list \<Rightarrow> (string \<times> string) set" where
  "edges_of gr = {(u, v). v \<in> set (neighbours gr u)}"

lemma edges_of_iff: "(u, v) \<in> edges_of gr \<longleftrightarrow> v \<in> set (neighbours gr u)"
  by (simp add: edges_of_def)

definition fwd_edges :: "ModuleGraph \<Rightarrow> (string \<times> string) set" where
  "fwd_edges g = edges_of (dependencyGraph g)"

text \<open>
  The reverse edges the walk follows: \<open>(u, v)\<close> when \<open>v\<close> is a dependent of \<open>u\<close>
  in \<^verbatim>\<open>reverseDependencyGraph\<close>.
\<close>

definition redges :: "ModuleGraph \<Rightarrow> (string \<times> string) set" where
  "redges g = {(u, v). v \<in> set (getDependents g u)}"

lemma visit_forEach_Cons:
  "visit_forEach g (i # ids) path st = visit_forEach g ids path (visit g i path st)"
  by (simp add: visit_def visit_forEach.simps)

lemma visit_unfold:
  "visit g i path st =
     (if i \<in> recursionStack st then st\<lparr>cycles := cycles st @ [path @ [i]]\<rparr>
      else if i \<in> visited st then st
      else (let st1 = st\<lparr>visited := insert i (visited st),
                         recursionStack := insert i (recursionStack st)\<rparr>;
                st2 = visit_forEach g (getDependents g i) (path @ [i]) st1
            in st2\<lparr>result := result st2 @ [i],
                   recursionStack := recursionStack st2 - {i}\<rparr>))"
  by (simp add: visit_def visit_forEach.simps)

definition walk_step :: "ModuleGraph \<Rightarrow> string list \<Rightarrow> VisitState \<Rightarrow> VisitState \<Rightarrow> bool" where
  "walk_step g ids st st' \<longleftrightarrow>
     visited st \<subseteq> visited st' \<and>
     recursionStack st' = recursionStack st \<and>
     (\<exists>new. result st' = result st @ new \<and> set new = visited st' - visited st \<and> distinct new) \<and>
     visited st' - visited st \<subseteq> (redges g)\<^sup>* `` set ids \<and>
     set ids \<subseteq> visited st' \<union> recursionStack st \<and>
     (\<exists>more. cycles st' = cycles st @ more)"

lemma walk_step_refl: "walk_step g [] st st"
  by (simp add: walk_step_def)

lemma walk_step_trans:
  assumes "walk_step g [i] st st1" and "walk_step g ids st1 st2"
  shows "walk_step g (i # ids) st st2"
proof -
  from assms(1) obtain new1 more1 where
    1: "visited st \<subseteq> visited st1" "recursionStack st1 = recursionStack st"
      "result st1 = result st @ new1" "set new1 = visited st1 - visited st" "distinct new1"
      "visited st1 - visited st \<subseteq> (redges g)\<^sup>* `` {i}"
      "i \<in> visited st1 \<union> recursionStack st" "cycles st1 = cycles st @ more1"
    unfolding walk_step_def by auto
  from assms(2) obtain new2 more2 where
    2: "visited st1 \<subseteq> visited st2" "recursionStack st2 = recursionStack st1"
      "result st2 = result st1 @ new2" "set new2 = visited st2 - visited st1" "distinct new2"
      "visited st2 - visited st1 \<subseteq> (redges g)\<^sup>* `` set ids"
      "set ids \<subseteq> visited st2 \<union> recursionStack st1" "cycles st2 = cycles st1 @ more2"
    unfolding walk_step_def by auto
  have r: "result st2 = result st @ (new1 @ new2)" "set (new1 @ new2) = visited st2 - visited st"
    "distinct (new1 @ new2)"
    using 1 2 by auto
  have c: "cycles st2 = cycles st @ (more1 @ more2)" using 1 2 by simp
  have im: "(redges g)\<^sup>* `` set (i # ids) = (redges g)\<^sup>* `` {i} \<union> (redges g)\<^sup>* `` set ids"
    by auto
  have d: "visited st2 - visited st \<subseteq> (visited st1 - visited st) \<union> (visited st2 - visited st1)"
    by blast
  show ?thesis
    unfolding walk_step_def
    apply (intro conjI)
    subgoal using 1 2 by blast
    subgoal using 1 2 by simp
    subgoal using r by blast
    subgoal unfolding im using 1(6) 2(6) d by blast
    subgoal using 1 2 by auto
    subgoal using c by blast
    done
qed

lemma visit_forEach_walk_step:
  "walk_step g ids st (visit_forEach g ids path st)"
proof (induction g ids path st rule: visit_forEach.induct)
  case (1 g path st)
  then show ?case by (simp add: visit_forEach.simps walk_step_refl)
next
  case (2 g i ids path st)
  have one: "walk_step g [i] st (visit g i path st)"
  proof (cases "i \<in> recursionStack st \<or> i \<in> visited st")
    case True
    then show ?thesis by (auto simp: visit_unfold walk_step_def)
  next
    case False
    then have a: "i \<notin> recursionStack st" and b: "i \<notin> visited st" by auto
    let ?st1 = "st\<lparr>visited := insert i (visited st), recursionStack := insert i (recursionStack st)\<rparr>"
    let ?st2 = "visit_forEach g (getDependents g i) (path @ [i]) ?st1"
    have ih: "walk_step g (getDependents g i) ?st1 ?st2" using 2(1)[OF a b refl] .
    have v: "visit g i path st = ?st2\<lparr>result := result ?st2 @ [i], recursionStack := recursionStack ?st2 - {i}\<rparr>"
      using a b by (simp add: visit_unfold Let_def)
    from ih obtain new more where
      vis: "insert i (visited st) \<subseteq> visited ?st2" and
      stk: "recursionStack ?st2 = insert i (recursionStack st)" and
      res: "result ?st2 = result st @ new" "set new = visited ?st2 - insert i (visited st)" "distinct new" and
      reach: "visited ?st2 - insert i (visited st) \<subseteq> (redges g)\<^sup>* `` set (getDependents g i)" and
      cyc: "cycles ?st2 = cycles st @ more"
      unfolding walk_step_def by auto
    have reach': "(redges g)\<^sup>* `` set (getDependents g i) \<subseteq> (redges g)\<^sup>* `` {i}"
      by (auto simp: redges_def intro: converse_rtrancl_into_rtrancl)
    show ?thesis
      unfolding v walk_step_def
      apply (intro conjI)
      subgoal using vis by auto
      subgoal using stk a by auto
      subgoal apply (rule exI[of _ "new @ [i]"]) using res vis b by auto
      subgoal using reach reach' by auto
      subgoal using vis by auto
      subgoal using cyc by auto
      done
  qed
  have "walk_step g ids (visit g i path st) (visit_forEach g ids path (visit g i path st))"
    using 2(2) by (simp add: visit_unfold)
  with one show ?case
    unfolding visit_forEach_Cons by (rule walk_step_trans)
qed

text \<open>
  A list is ordered by a neighbour function when the neighbours of each element all stand
  later in the list.
\<close>

fun ordered_by :: "(string \<Rightarrow> string list) \<Rightarrow> string list \<Rightarrow> bool" where
  "ordered_by nb [] = True"
| "ordered_by nb (a # later) = (set (nb a) \<subseteq> set later \<and> ordered_by nb later)"

lemma ordered_by_nth:
  "ordered_by nb xs \<Longrightarrow> j < length xs \<Longrightarrow> set (nb (xs ! j)) \<subseteq> set (drop (Suc j) xs)"
proof (induction xs arbitrary: j)
  case Nil
  then show ?case by simp
next
  case (Cons a xs)
  then show ?case by (cases j) auto
qed

definition walk_inv :: "ModuleGraph \<Rightarrow> VisitState \<Rightarrow> bool" where
  "walk_inv g st \<longleftrightarrow>
     ordered_by (getDependents g) (rev (result st)) \<and> visited st = set (result st) \<union> recursionStack st"

lemma visit_no_cycle:
  assumes inv: "walk_inv g st"
    and nocyc: "cycles (visit g i path st) = cycles st"
    and inner: "\<And>st1. i \<notin> recursionStack st \<Longrightarrow> i \<notin> visited st \<Longrightarrow>
        st1 = st\<lparr>visited := insert i (visited st), recursionStack := insert i (recursionStack st)\<rparr> \<Longrightarrow>
        walk_inv g st1 \<Longrightarrow>
        cycles (visit_forEach g (getDependents g i) (path @ [i]) st1) = cycles st1 \<Longrightarrow>
        walk_inv g (visit_forEach g (getDependents g i) (path @ [i]) st1) \<and>
        set (getDependents g i) \<subseteq> set (result (visit_forEach g (getDependents g i) (path @ [i]) st1))"
  shows "walk_inv g (visit g i path st) \<and> i \<in> set (result (visit g i path st))"
proof (cases "i \<in> recursionStack st")
  case True
  then have "cycles (visit g i path st) = cycles st @ [path @ [i]]" by (simp add: visit_unfold)
  with nocyc show ?thesis by simp
next
  case a: False
  show ?thesis
  proof (cases "i \<in> visited st")
    case True
    then show ?thesis using a inv by (auto simp: visit_unfold walk_inv_def)
  next
    case b: False
    let ?st1 = "st\<lparr>visited := insert i (visited st), recursionStack := insert i (recursionStack st)\<rparr>"
    let ?st2 = "visit_forEach g (getDependents g i) (path @ [i]) ?st1"
    have v: "visit g i path st = ?st2\<lparr>result := result ?st2 @ [i], recursionStack := recursionStack ?st2 - {i}\<rparr>"
      using a b by (simp add: visit_unfold Let_def)
    have inv1: "walk_inv g ?st1" using inv by (auto simp: walk_inv_def)
    have c: "cycles ?st2 = cycles ?st1" using nocyc v by simp
    from inner[OF a b refl inv1 c]
    have inv2: "walk_inv g ?st2" and sub: "set (getDependents g i) \<subseteq> set (result ?st2)" by auto
    have stk: "recursionStack ?st2 = insert i (recursionStack st)"
      using visit_forEach_walk_step[of g "getDependents g i" ?st1 "path @ [i]"]
      by (simp add: walk_step_def)
    show ?thesis
      unfolding v using inv2 sub stk by (auto simp: walk_inv_def)
  qed
qed

lemma visit_forEach_no_cycle:
  "walk_inv g st \<Longrightarrow> cycles (visit_forEach g ids path st) = cycles st \<Longrightarrow>
   walk_inv g (visit_forEach g ids path st) \<and> set ids \<subseteq> set (result (visit_forEach g ids path st))"
proof (induction g ids path st rule: visit_forEach.induct)
  case (1 g path st)
  then show ?case by (simp add: visit_forEach.simps)
next
  case (2 g i ids path st)
  let ?m = "visit g i path st"
  let ?e = "visit_forEach g ids path ?m"
  have s1: "walk_step g [i] st ?m"
    using visit_forEach_walk_step[of g "[i]" st path] by (simp add: visit_def)
  have s2: "walk_step g ids ?m ?e" by (rule visit_forEach_walk_step)
  from s1 obtain m1 where m1: "cycles ?m = cycles st @ m1" unfolding walk_step_def by auto
  from s2 obtain m2 new2 where m2: "cycles ?e = cycles ?m @ m2" and r2: "result ?e = result ?m @ new2"
    unfolding walk_step_def by auto
  from "2.prems"(2) have "cycles ?e = cycles st" by (simp add: visit_forEach_Cons)
  with m1 m2 have c1: "cycles ?m = cycles st" and c2: "cycles ?e = cycles ?m" by auto
  have one: "walk_inv g ?m \<and> i \<in> set (result ?m)"
    using "2.prems"(1) c1
  proof (rule visit_no_cycle)
    fix st1
    assume "i \<notin> recursionStack st" "i \<notin> visited st"
      "st1 = st\<lparr>visited := insert i (visited st), recursionStack := insert i (recursionStack st)\<rparr>"
      "walk_inv g st1"
      "cycles (visit_forEach g (getDependents g i) (path @ [i]) st1) = cycles st1"
    then show "walk_inv g (visit_forEach g (getDependents g i) (path @ [i]) st1) \<and>
        set (getDependents g i) \<subseteq> set (result (visit_forEach g (getDependents g i) (path @ [i]) st1))"
      using "2.IH"(1) by blast
  qed
  have "walk_inv g ?e \<and> set ids \<subseteq> set (result ?e)"
    using "2.IH"(2) one c2 by (simp add: visit_unfold)
  with one r2 show ?case by (auto simp: visit_forEach_Cons)
qed

lemma distinct_earlier_not_later:
  assumes "distinct xs" "i < j" "j < length xs"
  shows "xs ! i \<notin> set (drop (Suc j) xs)"
proof -
  have "xs ! i \<in> set (take (Suc j) xs)"
    using assms by (auto simp: in_set_conv_nth intro!: exI[of _ i])
  moreover have "set (take (Suc j) xs) \<inter> set (drop (Suc j) xs) = {}"
    using assms(1) by (rule set_take_disj_set_drop_if_distinct) simp
  ultimately show ?thesis by blast
qed

lemma set_fold_set_add: "set (fold (\<lambda>x s. set_add s x) xs acc) = set acc \<union> set xs"
  by (induction xs arbitrary: acc) (auto simp: set_add_def)

lemma set_new_Set: "set (new_Set xs) = set xs"
  by (simp add: new_Set_def set_fold_set_add)

lemma getDependents_neighbours: "getDependents g k = neighbours (reverseDependencyGraph g) k"
  by (simp add: getDependents_def neighbours_def)

lemma neighbours_update:
  "neighbours (AList.update i v al) a = (if a = i then v else neighbours al a)"
  by (simp add: neighbours_def update_conv')

lemma neighbours_add_dependent:
  "set (neighbours (add_dependent m d r) k) =
     (if k = d then insert m (set (neighbours r k)) else set (neighbours r k))"
  by (auto simp: add_dependent_def map_has_def neighbours_def update_conv' set_add_def Let_def
      split: option.splits)

lemma neighbours_fold_add_dependent:
  "set (neighbours (fold (add_dependent m) ds r) k) =
     set (neighbours r k) \<union> (if k \<in> set ds then {m} else {})"
  by (induction ds arbitrary: r) (auto simp: neighbours_add_dependent)

definition edges_indexed :: "ModuleGraph \<Rightarrow> bool" where
  "edges_indexed g \<longleftrightarrow>
     (\<forall>a b. b \<in> set (neighbours (dependencyGraph g) a) \<longrightarrow> a \<in> set (getDependents g b))"

lemma updateModule_edge_maps:
  assumes "node_sets_empty g"
  shows "dependencyGraph (updateModule parseImports g i code h) =
           AList.update i (new_Set (parseImports i code)) (dependencyGraph g)"
    and "reverseDependencyGraph (updateModule parseImports g i code h) =
           fold (add_dependent i) (new_Set (parseImports i code)) (reverseDependencyGraph g)"
proof -
  have old: "\<And>n. getModule g i = Some n \<Longrightarrow> node_imports n = []"
    using assms by (auto simp: node_sets_empty_def getModule_def dest: map_of_SomeD)
  show "dependencyGraph (updateModule parseImports g i code h) =
           AList.update i (new_Set (parseImports i code)) (dependencyGraph g)"
    by (simp add: updateModule_def updateDependencies_def Let_def)
  show "reverseDependencyGraph (updateModule parseImports g i code h) =
           fold (add_dependent i) (new_Set (parseImports i code)) (reverseDependencyGraph g)"
    using old
    by (auto simp: updateModule_def updateDependencies_def Let_def createProxy_def new_Set_def
        split: option.splits)
qed

lemma updateModule_edges_indexed:
  assumes "node_sets_empty g" and "edges_indexed g"
  shows "edges_indexed (updateModule parseImports g i code h)"
  using assms(2)
  unfolding edges_indexed_def getDependents_neighbours updateModule_edge_maps[OF assms(1)]
  by (auto simp: neighbours_update neighbours_fold_add_dependent set_new_Set)

lemma updateModules_edges_indexed:
  "node_sets_empty g \<Longrightarrow> edges_indexed g \<Longrightarrow> edges_indexed (updateModules parseImports calls g)"
  unfolding updateModules_def
  by (induction calls arbitrary: g)
    (auto simp: updateModule_edges_indexed updateModule_node_sets_empty)

lemma new_ModuleGraph_edges_indexed: "edges_indexed new_ModuleGraph"
  by (simp add: edges_indexed_def new_ModuleGraph_def neighbours_def)

lemma walk_result:
  "\<exists>earlier. result (getUpdateChain_walk g x) = earlier @ [x]"
  by (simp add: getUpdateChain_walk_def visit_unfold Let_def)

lemma walk_step_top:
  "walk_step g [x] \<lparr>visited = {}, recursionStack = {}, result = [], cycles = []\<rparr>
     (getUpdateChain_walk g x)"
  unfolding getUpdateChain_walk_def visit_def by (rule visit_forEach_walk_step)

lemma getUpdateChain_head: "\<exists>later. getUpdateChain g x = x # later"
proof -
  obtain earlier where "result (getUpdateChain_walk g x) = earlier @ [x]"
    using walk_result by blast
  then have "getUpdateChain g x = x # rev earlier" by (simp add: getUpdateChain_def)
  then show ?thesis by blast
qed

lemma getUpdateChain_distinct: "distinct (getUpdateChain g x)"
  using walk_step_top[of g x] by (auto simp: walk_step_def getUpdateChain_def)

lemma getUpdateChain_reachable: "set (getUpdateChain g x) \<subseteq> (redges g)\<^sup>* `` {x}"
  using walk_step_top[of g x] by (auto simp: walk_step_def getUpdateChain_def)

lemma getUpdateChain_ordered:
  assumes "cycles (getUpdateChain_walk g x) = []"
  shows "ordered_by (getDependents g) (getUpdateChain g x)"
proof -
  let ?init = "\<lparr>visited = {}, recursionStack = {}, result = [], cycles = []\<rparr>"
  have "walk_inv g ?init" by (simp add: walk_inv_def)
  moreover have "cycles (visit_forEach g [x] [] ?init) = cycles ?init"
    using assms by (simp add: getUpdateChain_walk_def visit_def)
  ultimately have "walk_inv g (visit_forEach g [x] [] ?init)"
    using visit_forEach_no_cycle by blast
  then show ?thesis
    by (simp add: walk_inv_def getUpdateChain_def getUpdateChain_walk_def visit_def)
qed

definition cycle_graph :: ModuleGraph where
  "cycle_graph = updateModules letters [(''a'', ''b'', True), (''b'', ''a'', True)] new_ModuleGraph"

text \<open>
  On a cycle the walk only warns and still returns the chain: \<open>a\<close> imports \<open>b\<close> and \<open>b\<close>
  imports \<open>a\<close>; the chain of \<open>a\<close> is \<open>[a, b]\<close>, and its second element is an import of
  its first.
\<close>

lemma getUpdateChain_on_cycle:
  "getUpdateChain cycle_graph ''a'' = [''a'', ''b''] \<and>
   cycles (getUpdateChain_walk cycle_graph ''a'') = [[''a'', ''b'', ''a'']] \<and>
   getUpdateChain cycle_graph ''a'' ! 1
     \<in> set (neighbours (dependencyGraph cycle_graph) (getUpdateChain cycle_graph ''a'' ! 0))"
  by code_simp

text \<open>
  What the walk guarantees is relative to \<^verbatim>\<open>reverseDependencyGraph\<close>, the index it reads: the
  chain starts with \<open>x\<close>, holds no module twice, holds only modules the index reaches from
  \<open>x\<close>, and, when the walk records no cycle, no module of the chain is followed by one of its
  imports. The index holds every import edge, and it is never pruned
  (\<open>updateModule_edge_maps\<close>): it may hold edges that are no import any more.
\<close>

lemma getUpdateChain_over_index:
  assumes "g = updateModules parseImports calls new_ModuleGraph"
  shows "x \<in> set (getUpdateChain g x) \<and>
         set (getUpdateChain g x) \<subseteq> (redges g)\<^sup>* `` {x} \<and>
         hd (getUpdateChain g x) = x \<and> distinct (getUpdateChain g x) \<and>
         (cycles (getUpdateChain_walk g x) = [] \<longrightarrow>
            (\<forall>i j. i < j \<and> j < length (getUpdateChain g x) \<longrightarrow>
               getUpdateChain g x ! j
                 \<notin> set (neighbours (dependencyGraph g) (getUpdateChain g x ! i))))"
proof -
  let ?c = "getUpdateChain g x"
  obtain later where c: "?c = x # later" using getUpdateChain_head by blast
  have idx: "edges_indexed g"
    using assms
    by (simp add: updateModules_edges_indexed new_ModuleGraph_edges_indexed
        new_ModuleGraph_node_sets_empty)
  have topo: "?c ! j \<notin> set (neighbours (dependencyGraph g) (?c ! i))"
    if nocyc: "cycles (getUpdateChain_walk g x) = []" and ij: "i < j" "j < length ?c" for i j
  proof
    assume "?c ! j \<in> set (neighbours (dependencyGraph g) (?c ! i))"
    then have "?c ! i \<in> set (getDependents g (?c ! j))"
      using idx by (simp add: edges_indexed_def)
    then have "?c ! i \<in> set (drop (Suc j) ?c)"
      using ordered_by_nth[OF getUpdateChain_ordered[OF nocyc] ij(2)] by blast
    then show False
      using distinct_earlier_not_later[OF getUpdateChain_distinct ij] by blast
  qed
  show ?thesis
    using c getUpdateChain_reachable[of g x] getUpdateChain_distinct[of g x] topo
    by auto
qed

text \<open>
  Three calls: \<open>a\<close> imports \<open>b\<close>; \<open>b\<close> imports \<open>a\<close>; then \<open>b\<close> is updated and imports nothing.
\<close>

definition stale_graph :: ModuleGraph where
  "stale_graph =
     updateModules letters [(''a'', ''b'', True), (''b'', ''a'', True), (''b'', [], True)]
       new_ModuleGraph"

lemma stale_graph_edges: "fwd_edges stale_graph = {(''a'', ''b'')}"
proof -
  have dg: "dependencyGraph stale_graph = [(''a'', [''b'']), (''b'', [])]" by code_simp
  show ?thesis
    by (auto simp: fwd_edges_def edges_of_def dg neighbours_def split: if_splits)
qed

text \<open>
  C2 fails after these calls, on a graph without any import cycle. The only import edge
  left is from \<open>a\<close> to \<open>b\<close>, so \<open>b\<close> is no importer of \<open>a\<close>, directly or transitively. But
  \<^verbatim>\<open>reverseDependencyGraph\<close> still lists \<open>b\<close> as a dependent of \<open>a\<close>: the loop of
  \<^verbatim>\<open>updateDependencies\<close> that deletes reverse edges runs over the imports the node held
  before, and the \<^verbatim>\<open>imports\<close> set of a node is never written. So the chain of \<open>a\<close> is
  \<open>[a, b]\<close>: it holds \<open>b\<close>, which is not reachable from \<open>a\<close> through reverse edges, and its
  second element is an import of its first.
\<close>

theorem getUpdateChain_stale_importer:
  "dependencyGraph stale_graph = [(''a'', [''b'']), (''b'', [])] \<and>
   acyclic (fwd_edges stale_graph) \<and>
   (''b'', ''a'') \<notin> (fwd_edges stale_graph)\<^sup>* \<and>
   getDependents stale_graph ''a'' = [''b''] \<and>
   getUpdateChain stale_graph ''a'' = [''a'', ''b''] \<and>
   getUpdateChain stale_graph ''a'' ! 1
     \<in> set (neighbours (dependencyGraph stale_graph) (getUpdateChain stale_graph ''a'' ! 0))"
proof -
  have dg: "dependencyGraph stale_graph = [(''a'', [''b'']), (''b'', [])]" by code_simp
  have "fwd_edges stale_graph \<subseteq> measure (\<lambda>s. if s = ''a'' then 0 else (1::nat))"
    by (auto simp: stale_graph_edges)
  moreover have "acyclic (measure (\<lambda>s::string. if s = ''a'' then 0 else (1::nat)))"
    by (rule wf_acyclic) simp
  ultimately have ac: "acyclic (fwd_edges stale_graph)" by (rule acyclic_subset[rotated])
  have nr: "(''b'', ''a'') \<notin> (fwd_edges stale_graph)\<^sup>*"
  proof
    assume "(''b'', ''a'') \<in> (fwd_edges stale_graph)\<^sup>*"
    then show False
    proof (cases rule: converse_rtranclE)
      case base
      then show ?thesis by simp
    next
      case (step y)
      then show ?thesis by (simp add: stale_graph_edges)
    qed
  qed
  have dep: "getDependents stale_graph ''a'' = [''b'']" by code_simp
  have chain: "getUpdateChain stale_graph ''a'' = [''a'', ''b'']" by code_simp
  have imp: "getUpdateChain stale_graph ''a'' ! 1
     \<in> set (neighbours (dependencyGraph stale_graph) (getUpdateChain stale_graph ''a'' ! 0))"
    by (simp add: chain dg neighbours_def)
  show ?thesis
    by (intro conjI) (fact dg, fact ac, fact nr, fact dep, fact chain, fact imp)
qed

definition line_graph :: ModuleGraph where
  "line_graph = updateModules letters [(''b'', ''a'', True), (''c'', ''b'', True)] new_ModuleGraph"

section \<open>Strongly connected components\<close>

lemma order_forEach_Cons:
  "order_forEach gr (i # ids) st =
     order_forEach gr ids
       (if i \<in> order_visited st then st
        else (let st1 = st\<lparr>order_visited := insert i (order_visited st)\<rparr>;
                  st2 = order_forEach gr (neighbours gr i) st1
              in st2\<lparr>order := order st2 @ [i]\<rparr>))"
  by (simp add: order_forEach.simps)

lemma transpose_edge_add_dependent: "transpose_edge i d t = add_dependent i d t"
  by (simp add: transpose_edge_def add_dependent_def)

lemma neighbours_transpose_fold:
  "set (neighbours (fold (\<lambda>(i, deps) t. fold (transpose_edge i) deps t) dg t0) v) =
     set (neighbours t0 v) \<union> {i. \<exists>deps. (i, deps) \<in> set dg \<and> v \<in> set deps}"
proof (induction dg arbitrary: t0)
  case Nil
  then show ?case by simp
next
  case (Cons e dg)
  obtain i deps where e: "e = (i, deps)" by (cases e)
  have "transpose_edge i = add_dependent i"
    by (intro ext) (simp add: transpose_edge_add_dependent)
  then have "fold (transpose_edge i) deps t0 = fold (add_dependent i) deps t0" by simp
  then show ?case
    using Cons[of "fold (transpose_edge i) deps t0"]
    by (auto simp: e neighbours_fold_add_dependent)
qed

lemma neighbours_transposedGraph:
  assumes "distinct (map fst dg)"
  shows "set (neighbours (transposedGraph dg) v) = {u. v \<in> set (neighbours dg u)}"
proof -
  have a: "\<And>u. (\<exists>deps. (u, deps) \<in> set dg \<and> v \<in> set deps) \<longleftrightarrow> v \<in> set (neighbours dg u)"
    using assms by (auto simp: neighbours_def split: option.splits dest: map_of_SomeD)
  have "set (neighbours (transposedGraph dg) v) =
      set (neighbours [] v) \<union> {i. \<exists>deps. (i, deps) \<in> set dg \<and> v \<in> set deps}"
    unfolding transposedGraph_def by (rule neighbours_transpose_fold)
  moreover have "neighbours [] v = []" by (simp add: neighbours_def)
  ultimately show ?thesis using a by simp
qed

lemma neighbours_key:
  assumes "v \<in> set (neighbours gr u)"
  shows "u \<in> fst ` set gr"
proof -
  obtain deps where "map_of gr u = Some deps"
    using assms by (cases "map_of gr u") (auto simp: neighbours_def)
  then have "(u, deps) \<in> set gr" by (rule map_of_SomeD)
  then show ?thesis by (rule rev_image_eqI) simp
qed

definition keys_agree :: "ModuleGraph \<Rightarrow> bool" where
  "keys_agree g \<longleftrightarrow>
     fst ` set (dependencyGraph g) \<subseteq> fst ` set (modules g) \<and> distinct (map fst (dependencyGraph g))"

lemma updateModule_keys_agree:
  "keys_agree g \<Longrightarrow> keys_agree (updateModule parseImports g i code h)"
  by (auto simp: keys_agree_def updateModule_def updateDependencies_def Let_def dom_update
      distinct_update)

lemma updateModules_keys_agree:
  "keys_agree g \<Longrightarrow> keys_agree (updateModules parseImports calls g)"
  unfolding updateModules_def
  by (induction calls arbitrary: g) (auto simp: updateModule_keys_agree)

lemma new_ModuleGraph_keys_agree: "keys_agree new_ModuleGraph"
  by (simp add: keys_agree_def new_ModuleGraph_def)

subsection \<open>What a component is\<close>

text \<open>
  Two modules are mutually reachable when each reaches the other along import edges (in zero
  or more steps). The strongly connected component of \<open>r\<close> is the set of modules mutually
  reachable with \<open>r\<close>.
\<close>

definition mutual :: "(string \<times> string) set \<Rightarrow> string \<Rightarrow> string \<Rightarrow> bool" where
  "mutual E x z \<longleftrightarrow> (x, z) \<in> E\<^sup>* \<and> (z, x) \<in> E\<^sup>*"

lemma mutual_refl: "mutual E x x"
  by (simp add: mutual_def)

lemma mutual_sym: "mutual E x z \<Longrightarrow> mutual E z x"
  by (simp add: mutual_def)

lemma mutual_trans: "mutual E x y \<Longrightarrow> mutual E y z \<Longrightarrow> mutual E x z"
  by (auto simp: mutual_def)

definition scc_of :: "(string \<times> string) set \<Rightarrow> string \<Rightarrow> string set" where
  "scc_of E r = {v. mutual E r v}"

subsection \<open>First pass: finish order\<close>

text \<open>
  After the first pass, \<open>order\<close> lists every module once, and every listed module \<open>x\<close> is
  complete: whatever \<open>x\<close> reaches stands in the list no later than some member of the component
  of \<open>x\<close>. While \<^verbatim>\<open>visit\<close> is still running, a listed module may instead be attached to the
  stack, that is, mutually reachable with a module whose visit has not returned yet.
\<close>

definition not_after :: "string list \<Rightarrow> string \<Rightarrow> string \<Rightarrow> bool" where
  "not_after L y z \<longleftrightarrow> (\<exists>pre post. L = pre @ z # post \<and> y \<in> set pre \<union> {z})"

lemma not_after_append: "not_after L y z \<Longrightarrow> not_after (L @ new) y z"
  unfolding not_after_def by (metis append.assoc append_Cons)

lemma not_after_last: "y \<in> set (L @ [z]) \<Longrightarrow> not_after (L @ [z]) y z"
  unfolding not_after_def by (rule exI[of _ L], rule exI[of _ "[]"]) auto

definition attached :: "(string \<times> string) set \<Rightarrow> string set \<Rightarrow> string \<Rightarrow> bool" where
  "attached E stk x \<longleftrightarrow> (\<exists>u\<in>stk. mutual E x u)"

definition complete :: "(string \<times> string) set \<Rightarrow> string list \<Rightarrow> string \<Rightarrow> bool" where
  "complete E L x \<longleftrightarrow> (\<forall>y. (x, y) \<in> E\<^sup>* \<longrightarrow> (\<exists>z. mutual E x z \<and> not_after L y z))"

lemma complete_append: "complete E L x \<Longrightarrow> complete E (L @ new) x"
  unfolding complete_def by (meson not_after_append)

definition finish_inv :: "(string \<times> string list) list \<Rightarrow> string set \<Rightarrow> string list \<Rightarrow> bool" where
  "finish_inv gr stk L \<longleftrightarrow>
     distinct L \<and> set L \<inter> stk = {} \<and>
     (\<forall>x\<in>set L. set (neighbours gr x) \<subseteq> set L \<union> stk) \<and>
     (\<forall>x\<in>set L. attached (edges_of gr) stk x \<or> complete (edges_of gr) L x)"

lemma finish_inv_push:
  "finish_inv gr stk L \<Longrightarrow> i \<notin> set L \<Longrightarrow> finish_inv gr (insert i stk) L"
  unfolding finish_inv_def attached_def by auto

lemma finish_inv_pop:
  assumes inv: "finish_inv gr (insert i stk) L"
    and i: "i \<notin> stk"
    and succs: "set (neighbours gr i) \<subseteq> set L \<union> insert i stk"
    and reach: "\<forall>s\<in>stk. (s, i) \<in> (edges_of gr)\<^sup>*"
  shows "finish_inv gr stk (L @ [i])"
proof -
  let ?E = "edges_of gr"
  let ?L = "L @ [i]"
  have iL: "i \<notin> set L" using inv by (auto simp: finish_inv_def)
  have d: "distinct ?L" using inv iL by (simp add: finish_inv_def)
  have disj: "set ?L \<inter> stk = {}" using inv i by (auto simp: finish_inv_def)
  have clos: "\<forall>x\<in>set ?L. set (neighbours gr x) \<subseteq> set ?L \<union> stk"
    using inv succs by (auto simp: finish_inv_def)
  have cases: "attached ?E stk x \<or> complete ?E ?L x" if x: "x \<in> set ?L" for x
  proof (cases "\<exists>u\<in>stk. mutual ?E i u")
    case True
    then obtain u where u: "u \<in> stk" "mutual ?E i u" by blast
    show ?thesis
    proof (cases "x = i")
      case True
      then show ?thesis using u by (auto simp: attached_def)
    next
      case False
      then have "x \<in> set L" using x by simp
      then consider "attached ?E (insert i stk) x" | "complete ?E L x"
        using inv by (auto simp: finish_inv_def)
      then show ?thesis
      proof cases
        case 1
        then obtain u' where u': "u' \<in> insert i stk" "mutual ?E x u'" by (auto simp: attached_def)
        show ?thesis
        proof (cases "u' = i")
          case True
          then have "mutual ?E x u" using u' u(2) by (auto intro: mutual_trans)
          then show ?thesis using u(1) by (auto simp: attached_def)
        next
          case False
          then show ?thesis using u' by (auto simp: attached_def)
        qed
      next
        case 2
        then show ?thesis by (simp add: complete_append)
      qed
    qed
  next
    case none: False
    have all: "y \<in> set ?L" if "(i, y) \<in> ?E\<^sup>*" for y
      using that
    proof (induction rule: rtrancl_induct)
      case base
      then show ?case by simp
    next
      case (step y y')
      have "y' \<in> set (neighbours gr y)" using step.hyps(2) by (simp add: edges_of_iff)
      then have "y' \<in> set ?L \<union> stk" using clos step.IH by blast
      moreover have "y' \<notin> stk"
      proof
        assume s: "y' \<in> stk"
        then have "(y', i) \<in> ?E\<^sup>*" using reach by blast
        moreover have "(i, y') \<in> ?E\<^sup>*" using step.hyps by auto
        ultimately have "mutual ?E i y'" by (simp add: mutual_def)
        with none s show False by blast
      qed
      ultimately show ?case by blast
    qed
    have via_i: "complete ?E ?L x" if m: "mutual ?E x i" for x
      unfolding complete_def
    proof (intro allI impI)
      fix y assume "(x, y) \<in> ?E\<^sup>*"
      then have "(i, y) \<in> ?E\<^sup>*" using m by (auto simp: mutual_def)
      then have "y \<in> set ?L" by (rule all)
      then have "not_after ?L y i" by (rule not_after_last)
      with m show "\<exists>z. mutual ?E x z \<and> not_after ?L y z" by blast
    qed
    show ?thesis
    proof (cases "x = i")
      case True
      then show ?thesis using via_i[OF mutual_refl] by simp
    next
      case False
      then have "x \<in> set L" using x by simp
      then consider "attached ?E (insert i stk) x" | "complete ?E L x"
        using inv by (auto simp: finish_inv_def)
      then show ?thesis
      proof cases
        case 1
        then obtain u' where u': "u' \<in> insert i stk" "mutual ?E x u'" by (auto simp: attached_def)
        show ?thesis
        proof (cases "u' = i")
          case True
          then show ?thesis using via_i u'(2) by simp
        next
          case False
          then show ?thesis using u' by (auto simp: attached_def)
        qed
      next
        case 2
        then show ?thesis by (simp add: complete_append)
      qed
    qed
  qed
  show ?thesis
    unfolding finish_inv_def using d disj clos cases by blast
qed

lemma order_forEach_finish:
  "finish_inv gr stk (order st) \<Longrightarrow> order_visited st = set (order st) \<union> stk \<Longrightarrow>
   \<forall>s\<in>stk. \<forall>i\<in>set ids. (s, i) \<in> (edges_of gr)\<^sup>* \<Longrightarrow>
   finish_inv gr stk (order (order_forEach gr ids st)) \<and>
   order_visited (order_forEach gr ids st) = set (order (order_forEach gr ids st)) \<union> stk \<and>
   set ids \<subseteq> order_visited (order_forEach gr ids st) \<and>
   (\<exists>new. order (order_forEach gr ids st) = order st @ new)"
proof (induction gr ids st arbitrary: stk rule: order_forEach.induct)
  case (1 gr st)
  then show ?case by (simp add: order_forEach.simps)
next
  case (2 gr i ids st)
  let ?E = "edges_of gr"
  let ?m = "if i \<in> order_visited st then st
        else (let st1 = st\<lparr>order_visited := insert i (order_visited st)\<rparr>;
                  st2 = order_forEach gr (neighbours gr i) st1
              in st2\<lparr>order := order st2 @ [i]\<rparr>)"
  have one: "finish_inv gr stk (order ?m) \<and> order_visited ?m = set (order ?m) \<union> stk \<and>
      i \<in> order_visited ?m \<and> (\<exists>new. order ?m = order st @ new)"
  proof (cases "i \<in> order_visited st")
    case True
    then show ?thesis using "2.prems" by simp
  next
    case False
    let ?st1 = "st\<lparr>order_visited := insert i (order_visited st)\<rparr>"
    let ?st2 = "order_forEach gr (neighbours gr i) ?st1"
    have iL: "i \<notin> set (order st)" and istk: "i \<notin> stk" using False "2.prems"(2) by auto
    have inv1: "finish_inv gr (insert i stk) (order ?st1)"
      using finish_inv_push[OF "2.prems"(1) iL] by simp
    have vis1: "order_visited ?st1 = set (order ?st1) \<union> insert i stk"
      using "2.prems"(2) by auto
    have reach1: "\<forall>s\<in>insert i stk. \<forall>j\<in>set (neighbours gr i). (s, j) \<in> ?E\<^sup>*"
    proof (intro ballI)
      fix s j assume s: "s \<in> insert i stk" and j: "j \<in> set (neighbours gr i)"
      have e: "(i, j) \<in> ?E" using j by (simp add: edges_of_iff)
      have "(s, i) \<in> ?E\<^sup>*" using s "2.prems"(3) by auto
      then show "(s, j) \<in> ?E\<^sup>*" using e by (rule rtrancl_into_rtrancl)
    qed
    from "2.IH"(1)[OF False refl inv1 vis1 reach1]
    have inv2: "finish_inv gr (insert i stk) (order ?st2)"
      and vis2: "order_visited ?st2 = set (order ?st2) \<union> insert i stk"
      and sub: "set (neighbours gr i) \<subseteq> order_visited ?st2"
      and ext: "\<exists>new. order ?st2 = order ?st1 @ new" by auto
    have m: "?m = ?st2\<lparr>order := order ?st2 @ [i]\<rparr>" using False by (simp add: Let_def)
    have reach_i: "\<forall>s\<in>stk. (s, i) \<in> ?E\<^sup>*" using "2.prems"(3) by auto
    have succs: "set (neighbours gr i) \<subseteq> set (order ?st2) \<union> insert i stk"
      using sub vis2 by simp
    have "finish_inv gr stk (order ?st2 @ [i])"
      using inv2 istk succs reach_i by (rule finish_inv_pop)
    then show ?thesis
      unfolding m using vis2 ext by auto
  qed
  then have inv_m: "finish_inv gr stk (order ?m)"
    and vis_m: "order_visited ?m = set (order ?m) \<union> stk" by blast+
  have "\<forall>s\<in>stk. \<forall>i\<in>set ids. (s, i) \<in> ?E\<^sup>*" using "2.prems"(3) by auto
  from "2.IH"(2)[OF inv_m vis_m this]
  have rest: "finish_inv gr stk (order (order_forEach gr ids ?m)) \<and>
     order_visited (order_forEach gr ids ?m) = set (order (order_forEach gr ids ?m)) \<union> stk \<and>
     set ids \<subseteq> order_visited (order_forEach gr ids ?m) \<and>
     (\<exists>new. order (order_forEach gr ids ?m) = order ?m @ new)" .
  have mono: "order_visited ?m \<subseteq> order_visited (order_forEach gr ids ?m)"
    using rest vis_m by auto
  show ?case
    unfolding order_forEach_Cons using one rest mono by auto
qed

lemma finish_order_complete:
  shows "distinct (finish_order g)"
    and "fst ` set (modules g) \<subseteq> set (finish_order g)"
    and "\<forall>x\<in>set (finish_order g). complete (fwd_edges g) (finish_order g) x"
proof -
  define init where "init = \<lparr>order_visited = {}, order = []\<rparr>"
  define fin where "fin = order_forEach (dependencyGraph g) (map fst (modules g)) init"
  have L: "finish_order g = order fin" by (simp add: finish_order_def fin_def init_def)
  have "finish_inv (dependencyGraph g) {} (order init)" by (simp add: finish_inv_def init_def)
  moreover have "order_visited init = set (order init) \<union> {}" by (simp add: init_def)
  ultimately have r: "finish_inv (dependencyGraph g) {} (order fin) \<and>
      order_visited fin = set (order fin) \<union> {} \<and>
      set (map fst (modules g)) \<subseteq> order_visited fin \<and>
      (\<exists>new. order fin = order init @ new)"
    unfolding fin_def by (rule order_forEach_finish) simp
  then show "distinct (finish_order g)" by (simp add: finish_inv_def L)
  from r show "fst ` set (modules g) \<subseteq> set (finish_order g)" by (auto simp: L)
  from r show "\<forall>x\<in>set (finish_order g). complete (fwd_edges g) (finish_order g) x"
    by (simp add: finish_inv_def attached_def fwd_edges_def L)
qed

subsection \<open>Second pass: assigning components\<close>

text \<open>
  \<^verbatim>\<open>assign\<close> from a root adds to \<open>visited\<close> exactly the modules that reach the root in the forward
  graph and were not visited before, and pushes each of them once onto \<open>component\<close>.
\<close>

definition assign_step :: "(string \<times> string list) list \<Rightarrow> string list \<Rightarrow> AssignState \<Rightarrow> AssignState
    \<Rightarrow> bool" where
  "assign_step t ids st st' \<longleftrightarrow>
     assign_visited st \<subseteq> assign_visited st' \<and> set ids \<subseteq> assign_visited st' \<and>
     (\<exists>new. component st' = component st @ new \<and>
            set new = assign_visited st' - assign_visited st \<and> distinct new) \<and>
     assign_visited st' - assign_visited st \<subseteq> (edges_of t)\<^sup>* `` set ids \<and>
     (\<forall>v\<in>assign_visited st' - assign_visited st. set (neighbours t v) \<subseteq> assign_visited st')"

lemma assign_step_trans:
  assumes "assign_step t [i] st st1" and "assign_step t ids st1 st2"
  shows "assign_step t (i # ids) st st2"
proof -
  from assms(1) obtain new1 where
    1: "assign_visited st \<subseteq> assign_visited st1" "i \<in> assign_visited st1"
      "component st1 = component st @ new1" "set new1 = assign_visited st1 - assign_visited st"
      "distinct new1" "assign_visited st1 - assign_visited st \<subseteq> (edges_of t)\<^sup>* `` {i}"
      "\<forall>v\<in>assign_visited st1 - assign_visited st. set (neighbours t v) \<subseteq> assign_visited st1"
    unfolding assign_step_def by auto
  from assms(2) obtain new2 where
    2: "assign_visited st1 \<subseteq> assign_visited st2" "set ids \<subseteq> assign_visited st2"
      "component st2 = component st1 @ new2" "set new2 = assign_visited st2 - assign_visited st1"
      "distinct new2" "assign_visited st2 - assign_visited st1 \<subseteq> (edges_of t)\<^sup>* `` set ids"
      "\<forall>v\<in>assign_visited st2 - assign_visited st1. set (neighbours t v) \<subseteq> assign_visited st2"
    unfolding assign_step_def by auto
  have r: "component st2 = component st @ (new1 @ new2)"
    "set (new1 @ new2) = assign_visited st2 - assign_visited st" "distinct (new1 @ new2)"
    using 1 2 by auto
  have im: "(edges_of t)\<^sup>* `` set (i # ids) = (edges_of t)\<^sup>* `` {i} \<union> (edges_of t)\<^sup>* `` set ids"
    by auto
  have d: "assign_visited st2 - assign_visited st \<subseteq>
      (assign_visited st1 - assign_visited st) \<union> (assign_visited st2 - assign_visited st1)"
    by blast
  show ?thesis
    unfolding assign_step_def
    apply (intro conjI)
    subgoal using 1 2 by blast
    subgoal using 1 2 by auto
    subgoal using r by blast
    subgoal unfolding im using 1(6) 2(6) d by blast
    subgoal using 1(7) 2(7) 2(1) by blast
    done
qed

lemma assign_forEach_Cons:
  "assign_forEach t (i # ids) st =
     assign_forEach t ids
       (if i \<in> assign_visited st then st
        else assign_forEach t (neighbours t i)
               (st\<lparr>assign_visited := insert i (assign_visited st),
                   component := component st @ [i]\<rparr>))"
  by (simp add: assign_forEach.simps)

lemma assign_forEach_step:
  "assign_step t ids st (assign_forEach t ids st)"
proof (induction t ids st rule: assign_forEach.induct)
  case (1 t st)
  then show ?case by (simp add: assign_forEach.simps assign_step_def)
next
  case (2 t i ids st)
  let ?m = "if i \<in> assign_visited st then st
        else assign_forEach t (neighbours t i)
               (st\<lparr>assign_visited := insert i (assign_visited st),
                   component := component st @ [i]\<rparr>)"
  have one: "assign_step t [i] st ?m"
  proof (cases "i \<in> assign_visited st")
    case True
    then show ?thesis by (simp add: assign_step_def)
  next
    case False
    let ?st1 = "st\<lparr>assign_visited := insert i (assign_visited st), component := component st @ [i]\<rparr>"
    let ?st2 = "assign_forEach t (neighbours t i) ?st1"
    from "2.IH"(1)[OF False] obtain new where
      vis: "insert i (assign_visited st) \<subseteq> assign_visited ?st2" and
      ids: "set (neighbours t i) \<subseteq> assign_visited ?st2" and
      comp: "component ?st2 = (component st @ [i]) @ new"
        "set new = assign_visited ?st2 - insert i (assign_visited st)" "distinct new" and
      reach: "assign_visited ?st2 - insert i (assign_visited st)
                \<subseteq> (edges_of t)\<^sup>* `` set (neighbours t i)" and
      clos: "\<forall>v\<in>assign_visited ?st2 - insert i (assign_visited st).
                set (neighbours t v) \<subseteq> assign_visited ?st2"
      unfolding assign_step_def by auto
    have reach': "(edges_of t)\<^sup>* `` set (neighbours t i) \<subseteq> (edges_of t)\<^sup>* `` {i}"
      by (auto simp: edges_of_def intro: converse_rtrancl_into_rtrancl)
    have m: "?m = ?st2" using False by simp
    show ?thesis
      unfolding m assign_step_def
      apply (intro conjI)
      subgoal using vis by auto
      subgoal using vis by auto
      subgoal apply (rule exI[of _ "i # new"]) using comp vis False by auto
      subgoal using reach reach' by auto
      subgoal using clos ids by auto
      done
  qed
  have "assign_step t ids ?m (assign_forEach t ids ?m)" using "2.IH"(2) .
  with one show ?case
    unfolding assign_forEach_Cons by (rule assign_step_trans)
qed

lemma assign_forEach_closed:
  assumes closed: "\<forall>v\<in>assign_visited st. set (neighbours t v) \<subseteq> assign_visited st"
  shows "assign_visited (assign_forEach t ids st) = assign_visited st \<union> (edges_of t)\<^sup>* `` set ids"
proof -
  let ?st' = "assign_forEach t ids st"
  have s: "assign_step t ids st ?st'" by (rule assign_forEach_step)
  have closed': "\<forall>v\<in>assign_visited ?st'. set (neighbours t v) \<subseteq> assign_visited ?st'"
    using s closed unfolding assign_step_def by blast
  have "y \<in> assign_visited ?st'" if "i \<in> set ids" "(i, y) \<in> (edges_of t)\<^sup>*" for i y
    using that(2)
  proof (induction rule: rtrancl_induct)
    case base
    then show ?case using s that(1) by (auto simp: assign_step_def)
  next
    case (step y z)
    then show ?case using closed' by (auto simp: edges_of_iff)
  qed
  then have "(edges_of t)\<^sup>* `` set ids \<subseteq> assign_visited ?st'" by auto
  moreover have "assign_visited ?st' \<subseteq> assign_visited st \<union> (edges_of t)\<^sup>* `` set ids"
    using s unfolding assign_step_def by blast
  moreover have "assign_visited st \<subseteq> assign_visited ?st'"
    using s unfolding assign_step_def by blast
  ultimately show ?thesis by blast
qed

lemma edges_of_transposedGraph:
  "distinct (map fst dg) \<Longrightarrow> edges_of (transposedGraph dg) = (edges_of dg)\<inverse>"
  by (auto simp: edges_of_def neighbours_transposedGraph)

lemma distinct_split_unique:
  "distinct (A @ x # B) \<Longrightarrow> A @ x # B = A' @ x # B' \<Longrightarrow> A = A' \<and> B = B'"
proof (induction A arbitrary: A')
  case Nil
  then show ?case by (cases A') auto
next
  case (Cons a A)
  show ?case
  proof (cases A')
    case Nil
    with Cons.prems show ?thesis by auto
  next
    case (Cons a' A'')
    have d: "distinct (A @ x # B)" using Cons.prems(1) by simp
    have e: "a = a'" "A @ x # B = A'' @ x # B'" using Cons.prems(2) Cons by simp_all
    from Cons.IH[OF d e(2)] e(1) Cons show ?thesis by simp
  qed
qed

lemma later_in_split:
  assumes "distinct L" "L = A @ x # B" "L = pre @ z # post" "x \<in> set pre"
  shows "z \<in> set B"
proof -
  from assms(4) obtain p1 p2 where p: "pre = p1 @ x # p2" by (auto simp: in_set_conv_decomp)
  then have "A @ x # B = p1 @ x # (p2 @ z # post)" using assms(2,3) by simp
  moreover have "distinct (A @ x # B)" using assms(1,2) by simp
  ultimately have "A = p1 \<and> B = p2 @ z # post" by (rule distinct_split_unique[rotated])
  then show ?thesis by simp
qed

definition reaching :: "(string \<times> string) set \<Rightarrow> string set \<Rightarrow> string set" where
  "reaching E D = {v. \<exists>d\<in>D. (v, d) \<in> E\<^sup>*}"

definition good_component :: "(string \<times> string) set \<Rightarrow> string list \<Rightarrow> bool" where
  "good_component E c \<longleftrightarrow> distinct c \<and> 1 < length c \<and> (\<exists>r. set c = scc_of E r)"

definition pass_ctx :: "(string \<times> string list) list \<Rightarrow> string list \<Rightarrow> bool" where
  "pass_ctx dg L \<longleftrightarrow>
     distinct (map fst dg) \<and> distinct L \<and> fst ` set dg \<subseteq> set L \<and>
     (\<forall>x\<in>set L. complete (edges_of dg) L x)"

lemma reaching_converse: "(E\<inverse>)\<^sup>* `` D = reaching E D"
  by (auto simp: reaching_def rtrancl_converse)

lemma reaching_snoc: "reaching E (set (done @ [x])) = reaching E (set done) \<union> reaching E {x}"
  by (auto simp: reaching_def)

lemma reaching_absorb:
  assumes "x \<in> reaching E D"
  shows "reaching E {x} \<subseteq> reaching E D"
  using assms by (auto simp: reaching_def intro: rtrancl_trans)

lemma component_is_scc:
  assumes ctx: "pass_ctx dg L" and split: "rev L = done @ x # rest"
    and fresh: "x \<notin> reaching (edges_of dg) (set done)"
  shows "reaching (edges_of dg) {x} - reaching (edges_of dg) (set done) = scc_of (edges_of dg) x"
proof (intro equalityI subsetI)
  let ?E = "edges_of dg"
  fix v assume v: "v \<in> reaching ?E {x} - reaching ?E (set done)"
  then have vx: "(v, x) \<in> ?E\<^sup>*" and vd: "v \<notin> reaching ?E (set done)" by (auto simp: reaching_def)
  show "v \<in> scc_of ?E x"
  proof (cases "v = x")
    case True
    then show ?thesis by (simp add: scc_of_def mutual_refl)
  next
    case False
    with vx obtain w where "(v, w) \<in> ?E" by (auto elim: converse_rtranclE)
    then have "v \<in> fst ` set dg" by (auto simp: edges_of_iff dest: neighbours_key)
    then have "v \<in> set L" using ctx by (auto simp: pass_ctx_def)
    then have "complete ?E L v" using ctx by (auto simp: pass_ctx_def)
    with vx obtain z where z: "mutual ?E v z" "not_after L x z" by (auto simp: complete_def)
    from z(2) obtain pre post where L: "L = pre @ z # post" and x: "x \<in> set pre \<union> {z}"
      by (auto simp: not_after_def)
    have "z = x"
    proof (rule ccontr)
      assume "z \<noteq> x"
      with x have xp: "x \<in> set pre" by auto
      have L': "L = rev rest @ x # rev done" using split by (metis rev_append rev.simps(2) rev_rev_ident append.assoc append_Cons append_Nil)
      have "distinct L" using ctx by (simp add: pass_ctx_def)
      from later_in_split[OF this L' L xp] have "z \<in> set done" by simp
      moreover have "(v, z) \<in> ?E\<^sup>*" using z(1) by (simp add: mutual_def)
      ultimately have "v \<in> reaching ?E (set done)" by (auto simp: reaching_def)
      with vd show False by simp
    qed
    then show ?thesis using z(1) by (simp add: scc_of_def mutual_sym)
  qed
next
  let ?E = "edges_of dg"
  fix v assume "v \<in> scc_of ?E x"
  then have m: "(x, v) \<in> ?E\<^sup>*" "(v, x) \<in> ?E\<^sup>*" by (auto simp: scc_of_def mutual_def)
  have "v \<notin> reaching ?E (set done)"
  proof
    assume "v \<in> reaching ?E (set done)"
    then obtain d where "d \<in> set done" "(v, d) \<in> ?E\<^sup>*" by (auto simp: reaching_def)
    then have "x \<in> reaching ?E (set done)" using m(1) by (auto simp: reaching_def intro: rtrancl_trans)
    with fresh show False by simp
  qed
  then show "v \<in> reaching ?E {x} - reaching ?E (set done)" using m(2) by (auto simp: reaching_def)
qed

lemma assign_root:
  assumes dk: "distinct (map fst dg)" and vis: "vis = reaching (edges_of dg) D"
  shows "assign_visited (assign_forEach (transposedGraph dg) [x] \<lparr>assign_visited = vis, component = []\<rparr>)
           = vis \<union> reaching (edges_of dg) {x}"
    and "distinct (component (assign_forEach (transposedGraph dg) [x]
           \<lparr>assign_visited = vis, component = []\<rparr>))"
    and "set (component (assign_forEach (transposedGraph dg) [x]
           \<lparr>assign_visited = vis, component = []\<rparr>)) = reaching (edges_of dg) {x} - vis"
proof -
  let ?T = "transposedGraph dg"
  let ?st = "\<lparr>assign_visited = vis, component = []\<rparr>"
  let ?st' = "assign_forEach ?T [x] ?st"
  have closed: "\<forall>v\<in>assign_visited ?st. set (neighbours ?T v) \<subseteq> assign_visited ?st"
  proof (intro ballI subsetI)
    fix v u assume v: "v \<in> assign_visited ?st" and u: "u \<in> set (neighbours ?T v)"
    from v obtain d where d: "d \<in> D" "(v, d) \<in> (edges_of dg)\<^sup>*"
      using vis by (auto simp: reaching_def)
    have "(u, v) \<in> edges_of dg"
      using u dk by (simp add: neighbours_transposedGraph edges_of_iff)
    then have "(u, d) \<in> (edges_of dg)\<^sup>*" using d(2) by (rule converse_rtrancl_into_rtrancl)
    then show "u \<in> assign_visited ?st" using d(1) vis by (auto simp: reaching_def)
  qed
  have "assign_visited ?st' = assign_visited ?st \<union> (edges_of ?T)\<^sup>* `` set [x]"
    using closed by (rule assign_forEach_closed)
  then show v': "assign_visited ?st' = vis \<union> reaching (edges_of dg) {x}"
    using dk by (simp add: edges_of_transposedGraph reaching_converse)
  have "assign_step ?T [x] ?st ?st'" by (rule assign_forEach_step)
  then obtain new where "component ?st' = component ?st @ new"
    "set new = assign_visited ?st' - assign_visited ?st" "distinct new"
    unfolding assign_step_def by blast
  then show "distinct (component ?st')" and "set (component ?st') = reaching (edges_of dg) {x} - vis"
    using v' by auto
qed

lemma components_loop_correct:
  assumes ctx: "pass_ctx dg L"
  shows "rev L = done @ rs \<Longrightarrow> vis = reaching (edges_of dg) (set done) \<Longrightarrow>
     \<forall>c\<in>set comps. good_component (edges_of dg) c \<and> set c \<subseteq> vis \<Longrightarrow>
     distinct (map set comps) \<Longrightarrow>
     (\<forall>c\<in>set (components_loop (transposedGraph dg) rs vis comps). good_component (edges_of dg) c) \<and>
     distinct (map set (components_loop (transposedGraph dg) rs vis comps)) \<and>
     set comps \<subseteq> set (components_loop (transposedGraph dg) rs vis comps) \<and>
     (\<forall>r\<in>set rs. r \<notin> vis \<longrightarrow> (\<exists>v. v \<noteq> r \<and> mutual (edges_of dg) r v) \<longrightarrow>
        (\<exists>c\<in>set (components_loop (transposedGraph dg) rs vis comps). set c = scc_of (edges_of dg) r))"
proof (induction rs arbitrary: "done" vis comps)
  case Nil
  then show ?case by simp
next
  case (Cons x rest)
  let ?E = "edges_of dg"
  let ?T = "transposedGraph dg"
  have split': "rev L = (done @ [x]) @ rest" using Cons.prems(1) by simp
  show ?case
  proof (cases "x \<in> vis")
    case True
    have "reaching ?E {x} \<subseteq> reaching ?E (set done)"
      using True Cons.prems(2) reaching_absorb[of x ?E "set done"] by simp
    then have vis': "vis = reaching ?E (set (done @ [x]))"
      unfolding reaching_snoc using Cons.prems(2) by blast
    have loop: "components_loop ?T (x # rest) vis comps = components_loop ?T rest vis comps"
      using True by simp
    from Cons.IH[OF split' vis' Cons.prems(3,4)] True
    show ?thesis unfolding loop by auto
  next
    case False
    define st where "st = assign_forEach ?T [x] \<lparr>assign_visited = vis, component = []\<rparr>"
    define c where "c = component st"
    define comps' where "comps' = (if length c > 1 then comps @ [c] else comps)"
    have dk: "distinct (map fst dg)" using ctx by (simp add: pass_ctx_def)
    have fresh: "x \<notin> reaching ?E (set done)" using False Cons.prems(2) by simp
    have vst: "assign_visited st = vis \<union> reaching ?E {x}"
      and dc: "distinct c" and sc0: "set c = reaching ?E {x} - vis"
      using assign_root[OF dk Cons.prems(2), of x] by (simp_all add: st_def c_def)
    have sc: "set c = scc_of ?E x"
      using component_is_scc[OF ctx Cons.prems(1) fresh] sc0 Cons.prems(2) by simp
    have xc: "x \<in> set c" by (simp add: sc scc_of_def mutual_refl)
    have vis': "assign_visited st = reaching ?E (set (done @ [x]))"
      unfolding reaching_snoc using vst Cons.prems(2) by simp
    have loop: "components_loop ?T (x # rest) vis comps =
        components_loop ?T rest (assign_visited st) comps'"
      using False by (simp add: st_def c_def comps'_def Let_def)
    have good': "\<forall>c'\<in>set comps'. good_component ?E c' \<and> set c' \<subseteq> assign_visited st"
    proof
      fix c' assume "c' \<in> set comps'"
      then consider "c' \<in> set comps" | "c' = c" "1 < length c"
        by (auto simp: comps'_def split: if_splits)
      then show "good_component ?E c' \<and> set c' \<subseteq> assign_visited st"
      proof cases
        case 1
        then show ?thesis using Cons.prems(3) vst by auto
      next
        case 2
        then show ?thesis using dc sc sc0 vst by (auto simp: good_component_def)
      qed
    qed
    have "set c \<notin> set ` set comps"
    proof
      assume "set c \<in> set ` set comps"
      then obtain c0 where "c0 \<in> set comps" "set c0 = set c" by auto
      then have "x \<in> vis" using Cons.prems(3) xc by auto
      with False show False by simp
    qed
    then have dist': "distinct (map set comps')"
      using Cons.prems(4) by (simp add: comps'_def)
    from Cons.IH[OF split' vis' good' dist']
    have ih: "\<forall>c\<in>set (components_loop ?T rest (assign_visited st) comps'). good_component ?E c"
      "distinct (map set (components_loop ?T rest (assign_visited st) comps'))"
      "set comps' \<subseteq> set (components_loop ?T rest (assign_visited st) comps')"
      "\<forall>r\<in>set rest. r \<notin> assign_visited st \<longrightarrow> (\<exists>v. v \<noteq> r \<and> mutual ?E r v) \<longrightarrow>
        (\<exists>c\<in>set (components_loop ?T rest (assign_visited st) comps'). set c = scc_of ?E r)"
      by blast+
    have found: "\<exists>c\<in>set (components_loop ?T rest (assign_visited st) comps'). set c = scc_of ?E r"
      if r: "r \<in> set (x # rest)" "r \<notin> vis" and nontrivial: "\<exists>v. v \<noteq> r \<and> mutual ?E r v" for r
    proof (cases "mutual ?E x r")
      case True
      then have same: "scc_of ?E r = scc_of ?E x"
        by (auto simp: scc_of_def intro: mutual_trans mutual_sym)
      from nontrivial obtain v where v: "v \<noteq> r" "mutual ?E r v" by blast
      have "r \<in> set c" "v \<in> set c"
        using True v(2) by (auto simp: sc scc_of_def intro: mutual_trans)
      with v(1) dc have "1 < length c"
        by (metis One_nat_def Suc_lessI distinct_card card_1_singletonE card_gt_0_iff
            empty_iff insert_iff finite_set length_pos_if_in_set singletonD)
      then have "c \<in> set comps'" by (simp add: comps'_def)
      then show ?thesis using ih(3) sc same by blast
    next
      case False
      then have "r \<noteq> x" by (auto simp: mutual_refl)
      then have "r \<in> set rest" using r(1) by simp
      moreover have "r \<notin> assign_visited st"
        using r(2) False sc sc0 vst by (auto simp: scc_of_def)
      ultimately show ?thesis using ih(4) nontrivial by blast
    qed
    have "set comps \<subseteq> set comps'" by (auto simp: comps'_def)
    then show ?thesis
      unfolding loop using ih found by blast
  qed
qed

lemma good_component_cycle:
  assumes "good_component E c"
  shows "\<exists>a. (a, a) \<in> E\<^sup>+"
proof -
  from assms obtain r where c: "distinct c" "1 < length c" "set c = scc_of E r"
    by (auto simp: good_component_def)
  from c(1,2) obtain a b where ab: "a \<in> set c" "b \<in> set c" "a \<noteq> b"
    by (cases c; cases "tl c") auto
  then have "mutual E r a" "mutual E r b" using c(3) by (auto simp: scc_of_def)
  then have "mutual E a b" by (blast intro: mutual_sym mutual_trans)
  then have "(a, b) \<in> E\<^sup>+" "(b, a) \<in> E\<^sup>+"
    using ab(3) by (auto simp: mutual_def rtrancl_eq_or_trancl)
  then have "(a, a) \<in> E\<^sup>+" by (rule trancl_trans)
  then show ?thesis ..
qed

lemma detect_correct:
  assumes ka: "keys_agree g"
  shows "\<forall>c\<in>set (detectStronglyConnectedComponents g). good_component (fwd_edges g) c"
    and "distinct (map set (detectStronglyConnectedComponents g))"
    and "\<forall>r v. v \<noteq> r \<and> mutual (fwd_edges g) r v \<longrightarrow>
           (\<exists>c\<in>set (detectStronglyConnectedComponents g). set c = scc_of (fwd_edges g) r)"
proof -
  define dg where "dg = dependencyGraph g"
  define L where "L = finish_order g"
  have E: "fwd_edges g = edges_of dg" by (simp add: fwd_edges_def dg_def)
  have det: "detectStronglyConnectedComponents g = components_loop (transposedGraph dg) (rev L) {} []"
    by (simp add: detectStronglyConnectedComponents_def dg_def L_def)
  have "fst ` set dg \<subseteq> fst ` set (modules g)"
    using ka by (simp add: keys_agree_def dg_def)
  also have "\<dots> \<subseteq> set L"
    unfolding L_def by (rule finish_order_complete(2))
  finally have keys: "fst ` set dg \<subseteq> set L" .
  have ctx: "pass_ctx dg L"
    unfolding pass_ctx_def
    using ka finish_order_complete(1,3)[of g] keys
    by (simp add: keys_agree_def dg_def L_def fwd_edges_def)
  have r0: "rev L = [] @ rev L" by simp
  have v0: "{} = reaching (edges_of dg) (set [])" by (simp add: reaching_def)
  have g0: "\<forall>c\<in>set []. good_component (edges_of dg) c \<and> set c \<subseteq> {}" by simp
  have d0: "distinct (map set ([] :: string list list))" by simp
  note loop = components_loop_correct[OF ctx r0 v0 g0 d0, folded det E]
  from loop show "\<forall>c\<in>set (detectStronglyConnectedComponents g). good_component (fwd_edges g) c"
    by blast
  from loop show "distinct (map set (detectStronglyConnectedComponents g))" by blast
  show "\<forall>r v. v \<noteq> r \<and> mutual (fwd_edges g) r v \<longrightarrow>
           (\<exists>c\<in>set (detectStronglyConnectedComponents g). set c = scc_of (fwd_edges g) r)"
  proof (intro allI impI)
    fix r v assume rv: "v \<noteq> r \<and> mutual (fwd_edges g) r v"
    then have "(r, v) \<in> (edges_of dg)\<^sup>+"
      by (auto simp: mutual_def E rtrancl_eq_or_trancl)
    then obtain w where "(r, w) \<in> edges_of dg" by (meson tranclD)
    then have "r \<in> fst ` set dg" by (auto simp: edges_of_iff dest: neighbours_key)
    then have "r \<in> set (rev L)" using keys by auto
    with loop rv show "\<exists>c\<in>set (detectStronglyConnectedComponents g). set c = scc_of (fwd_edges g) r"
      by blast
  qed
qed

definition self_import_graph :: ModuleGraph where
  "self_import_graph = updateModules letters [(''a'', ''a'', True)] new_ModuleGraph"

text \<open>
  C9, as stated, fails: module \<open>a\<close> imports itself. The component \<open>{a}\<close> is a singleton
  with a self-edge, and nothing is returned.
\<close>

theorem self_edge_counterexample:
  "neighbours (dependencyGraph self_import_graph) ''a'' = [''a''] \<and>
   detectStronglyConnectedComponents self_import_graph = []"
  by code_simp

text \<open>
  C9, amended. For every graph built by \<^verbatim>\<open>updateModule\<close> calls,
  \<^verbatim>\<open>detectStronglyConnectedComponents\<close> returns exactly the strongly connected components of
  the forward graph that have at least two members, each of them once and without repeated
  members: every returned list is such a component, no two returned lists have the same
  members, and the component of every module that is mutually reachable with another module
  is returned. A singleton component is never returned, also when it has a self-edge, and for
  an acyclic graph nothing is returned.
\<close>

theorem detect_components:
  assumes "g = updateModules parseImports calls new_ModuleGraph"
  shows "(\<forall>c \<in> set (detectStronglyConnectedComponents g).
            distinct c \<and> 2 \<le> length c \<and> (\<exists>r. set c = scc_of (fwd_edges g) r)) \<and>
         distinct (map set (detectStronglyConnectedComponents g)) \<and>
         (\<forall>r v. v \<noteq> r \<and> mutual (fwd_edges g) r v \<longrightarrow>
            (\<exists>c \<in> set (detectStronglyConnectedComponents g). set c = scc_of (fwd_edges g) r)) \<and>
         (acyclic (fwd_edges g) \<longrightarrow> detectStronglyConnectedComponents g = [])"
proof -
  have ka: "keys_agree g"
    using assms by (simp add: updateModules_keys_agree new_ModuleGraph_keys_agree)
  note good = detect_correct(1)[OF ka]
  have 1: "\<forall>c \<in> set (detectStronglyConnectedComponents g).
            distinct c \<and> 2 \<le> length c \<and> (\<exists>r. set c = scc_of (fwd_edges g) r)"
    using good by (auto simp: good_component_def)
  have 4: "acyclic (fwd_edges g) \<longrightarrow> detectStronglyConnectedComponents g = []"
  proof
    assume a: "acyclic (fwd_edges g)"
    show "detectStronglyConnectedComponents g = []"
    proof (rule ccontr)
      assume "detectStronglyConnectedComponents g \<noteq> []"
      then obtain c where "c \<in> set (detectStronglyConnectedComponents g)"
        by (cases "detectStronglyConnectedComponents g") auto
      then have "good_component (fwd_edges g) c" using good by blast
      then obtain x where "(x, x) \<in> (fwd_edges g)\<^sup>+" using good_component_cycle by blast
      with a show False by (simp add: acyclic_def)
    qed
  qed
  from 1 detect_correct(2,3)[OF ka] 4 show ?thesis by blast
qed

lemma line_graph_acyclic: "acyclic (fwd_edges line_graph)"
proof -
  have dg: "dependencyGraph line_graph = [(''b'', [''a'']), (''c'', [''b''])]" by code_simp
  have "fwd_edges line_graph \<subseteq> measure (\<lambda>s. if s = ''a'' then 2 else if s = ''b'' then 1 else 0)"
    by (auto simp: fwd_edges_def edges_of_def dg neighbours_def split: if_splits)
  moreover have "acyclic (measure (\<lambda>s::string. if s = ''a'' then 2 else if s = ''b'' then (1::nat) else 0))"
    by (rule wf_acyclic) simp
  ultimately show ?thesis by (rule acyclic_subset[rotated])
qed

theorem detect_components_witness:
  "detectStronglyConnectedComponents cycle_graph = [[''a'', ''b'']] \<and>
   set [''a'', ''b''] = scc_of (fwd_edges cycle_graph) ''a'' \<and>
   acyclic (fwd_edges line_graph) \<and> detectStronglyConnectedComponents line_graph = []"
proof -
  have d: "detectStronglyConnectedComponents cycle_graph = [[''a'', ''b'']]" by code_simp
  have dg: "dependencyGraph cycle_graph = [(''a'', [''b'']), (''b'', [''a''])]" by code_simp
  have "(''a'', ''b'') \<in> fwd_edges cycle_graph" "(''b'', ''a'') \<in> fwd_edges cycle_graph"
    by (simp_all add: fwd_edges_def edges_of_def dg neighbours_def)
  then have m: "''b'' \<noteq> ''a'' \<and> mutual (fwd_edges cycle_graph) ''a'' ''b''"
    by (auto simp: mutual_def)
  have "\<exists>c \<in> set (detectStronglyConnectedComponents cycle_graph).
          set c = scc_of (fwd_edges cycle_graph) ''a''"
    using m
    by (rule detect_components[OF cycle_graph_def, THEN conjunct2, THEN conjunct2, THEN conjunct1,
          rule_format])
  then have s: "set [''a'', ''b''] = scc_of (fwd_edges cycle_graph) ''a''"
    unfolding d by simp
  have l: "detectStronglyConnectedComponents line_graph = []"
    using line_graph_acyclic
    by (rule detect_components[OF line_graph_def, THEN conjunct2, THEN conjunct2, THEN conjunct2,
          rule_format])
  show ?thesis
    by (intro conjI) (fact d, fact s, fact line_graph_acyclic, fact l)
qed

section \<open>The server's client registry\<close>

definition registry_nonempty :: "(string \<times> WebSocket list) list \<Rightarrow> bool" where
  "registry_nonempty cm = list_all (\<lambda>(f, s). s \<noteq> []) cm"

lemma registry_nonempty_update:
  "registry_nonempty cm \<Longrightarrow> s \<noteq> [] \<Longrightarrow> registry_nonempty (AList.update f s cm)"
  unfolding registry_nonempty_def by (induction cm) auto

lemma registry_nonempty_delete:
  "registry_nonempty cm \<Longrightarrow> registry_nonempty (AList.delete f cm)"
  unfolding registry_nonempty_def by (induction cm) auto

lemma set_add_not_Nil: "set_add s x \<noteq> []"
  by (cases s) (auto simp: set_add_def)

lemma registry_nonempty_forget:
  "registry_nonempty cm \<Longrightarrow> registry_nonempty (forget_client ws f cm)"
  by (auto simp: forget_client_def Let_def registry_nonempty_update registry_nonempty_delete
      split: option.splits)

lemma registry_nonempty_forget_all:
  "registry_nonempty cm \<Longrightarrow> registry_nonempty (fold (forget_client ws) fs cm)"
  by (induction fs arbitrary: cm) (auto simp: registry_nonempty_forget)

lemma on_message_registry:
  assumes "registry_nonempty (clientModules srv)"
  shows "registry_nonempty (clientModules (on_message ws data srv))"
proof (cases "map_of (connection_modules srv) ws")
  case None
  then show ?thesis using assms by (simp add: on_message_def)
next
  case (Some mine)
  show ?thesis
  proof (cases data)
    case Malformed
    then show ?thesis using assms Some by (simp add: on_message_def)
  next
    case (Parsed ty f)
    show ?thesis
    proof (cases "ty = ''module-loaded''")
      case False
      then show ?thesis using assms Some Parsed by (simp add: on_message_def)
    next
      case True
      show ?thesis
      proof (cases "map_of (clientModules srv) f")
        case None
        then show ?thesis
          using assms Some Parsed True
          by (simp add: on_message_def map_has_def Let_def update_conv' registry_nonempty_update
              set_add_not_Nil)
      next
        case (Some s)
        then show ?thesis
          using assms \<open>map_of (connection_modules srv) ws = Some mine\<close> Parsed True
          by (simp add: on_message_def map_has_def Let_def registry_nonempty_update
              set_add_not_Nil)
      qed
    qed
  qed
qed

lemma on_close_registry:
  "registry_nonempty (clientModules srv) \<Longrightarrow> registry_nonempty (clientModules (on_close ws srv))"
  by (auto simp: on_close_def registry_nonempty_forget_all split: option.splits)

lemma on_connection_registry:
  "clientModules (on_connection ws srv) = clientModules srv"
  by (simp add: on_connection_def)

lemma server_event_registry:
  "registry_nonempty (clientModules srv) \<Longrightarrow>
   registry_nonempty (clientModules (server_event ev srv))"
  by (cases ev) (simp_all add: on_connection_registry on_message_registry on_close_registry)

lemma server_events_registry:
  "registry_nonempty (clientModules srv) \<Longrightarrow>
   registry_nonempty (clientModules (server_events evs srv))"
  unfolding server_events_def
  by (induction evs arbitrary: srv) (auto simp: server_event_registry)

text \<open>
  C10. After any sequence of connections, client messages and closes handled by a new
  server, every file that is a key of \<^verbatim>\<open>clientModules\<close> is mapped to a set of sockets
  that is not empty.
\<close>

theorem clientModules_sets_nonempty:
  assumes "map_of (clientModules (server_events evs new_HMRServer)) f = Some s"
  shows "s \<noteq> []"
proof -
  have "registry_nonempty (clientModules new_HMRServer)"
    by (simp add: registry_nonempty_def new_HMRServer_def)
  then have "registry_nonempty (clientModules (server_events evs new_HMRServer))"
    by (rule server_events_registry)
  moreover have "(f, s) \<in> set (clientModules (server_events evs new_HMRServer))"
    using assms by (rule map_of_SomeD)
  ultimately show ?thesis
    by (auto simp: registry_nonempty_def list_all_iff)
qed

lemmas server_eval = server_events_def on_connection_def on_message_def on_close_def
  forget_client_def new_HMRServer_def map_has_def set_add_def set_delete_def Let_def

theorem clientModules_sets_nonempty_witness:
  "map_of (clientModules (server_events
      [Connection 1, Connection 2, Message 1 (Parsed ''module-loaded'' ''f''),
       Message 2 (Parsed ''module-loaded'' ''f''), Close 1] new_HMRServer)) ''f'' = Some [2]
   \<and> [2::nat] \<noteq> []"
proof -
  have h: "map_of (clientModules (server_events
      [Connection 1, Connection 2, Message 1 (Parsed ''module-loaded'' ''f''),
       Message 2 (Parsed ''module-loaded'' ''f''), Close 1] new_HMRServer)) ''f'' = Some [2]"
    by (simp add: server_eval)
  from clientModules_sets_nonempty[OF h] h show ?thesis by simp
qed

section \<open>Notifications\<close>

lemma send_all_sent:
  "sent (fold (\<lambda>client s. send env client (m client) s) cs srv) =
     sent srv @ map (\<lambda>c. (c, m c)) (filter (\<lambda>c. readyState env c = OPEN) cs)"
  by (induction cs arbitrary: srv) (auto simp: send_def)

lemma send_all_frame:
  "moduleGraph (fold (\<lambda>client s. send env client (m client) s) cs srv) = moduleGraph srv \<and>
   moduleCache (fold (\<lambda>client s. send env client (m client) s) cs srv) = moduleCache srv \<and>
   clientModules (fold (\<lambda>client s. send env client (m client) s) cs srv) = clientModules srv \<and>
   wss_clients (fold (\<lambda>client s. send env client (m client) s) cs srv) = wss_clients srv"
  by (induction cs arbitrary: srv) (auto simp: send_def)

text \<open>The messages \<^verbatim>\<open>notifyClients\<close> sends for a list of updates, in the order it sends them.\<close>

definition update_messages :: "Env \<Rightarrow> HMRUpdate list \<Rightarrow> (WebSocket \<times> ServerMessage) list" where
  "update_messages env updates =
     concat (map (\<lambda>u. map (\<lambda>c. (c, UpdateMessage u))
                         (filter (\<lambda>c. readyState env c = OPEN) (clients u))) updates)"

lemma notifyClients_sent:
  "sent (notifyClients env updates srv) = sent srv @ update_messages env updates"
  unfolding notifyClients_def update_messages_def
  by (induction updates arbitrary: srv) (auto simp: send_all_sent)

lemma notifyClients_frame:
  "moduleGraph (notifyClients env updates srv) = moduleGraph srv \<and>
   moduleCache (notifyClients env updates srv) = moduleCache srv"
  unfolding notifyClients_def
  by (induction updates arbitrary: srv) (auto simp: send_all_frame)

lemma notifyError_sent:
  "sent (notifyError env f err srv) =
     sent srv @ map (\<lambda>c. (c, ErrorMessage f (message err) (stack err) (now env)))
                  (filter (\<lambda>c. readyState env c = OPEN) (wss_clients srv))"
  unfolding notifyError_def by (rule send_all_sent)

section \<open>A change that leaves the content hash as it was\<close>

definition example_env :: Env where
  "example_env = \<lparr>readFile = (\<lambda>f. Inr ''export const x = 1''), sha256 = (\<lambda>c. ''h'' @ c),
     esbuildTransform = (\<lambda>c l. Inr c), extname = (\<lambda>f. ''.ts''), readyState = (\<lambda>ws. OPEN),
     now = 7\<rparr>"

definition one_client_server :: HMRServer where
  "one_client_server =
     server_events [Connection 1, Message 1 (Parsed ''module-loaded'' ''f'')] new_HMRServer"

definition cached_server :: HMRServer where
  "cached_server = processUpdate example_env ''f'' one_client_server"

text \<open>
  C3, as stated, fails. Client 1 has loaded \<open>f\<close>; a first change fills the cache; a second
  change with the same content finds the cached hash, and the client is sent a second
  update message.
\<close>

theorem same_hash_counterexample:
  "readFile example_env ''f'' = Inr ''export const x = 1'' \<and>
   map_option cache_hash (map_of (moduleCache cached_server) ''f'') =
     Some (sha256 example_env ''export const x = 1'') \<and>
   sent (processUpdate example_env ''f'' cached_server) =
     sent cached_server @
       [(1, UpdateMessage \<lparr>update_type = Update_type, update_file = ''f'', clients = [1],
                            timestamp = 7\<rparr>)]"
  by code_simp

text \<open>
  C3, amended. When the content of the changed file hashes to the cached hash,
  \<^verbatim>\<open>processUpdate\<close> leaves the module graph and the module cache as they were, and it
  still notifies: for every module \<open>m\<close> of the update chain of the file, in the order of the
  chain, every socket that \<^verbatim>\<open>clientModules\<close> holds for \<open>m\<close> (the clients that have reported
  loading \<open>m\<close>) and that is open is sent one update message for \<open>m\<close>; nothing else is sent.
  In particular every open client that has loaded the changed file itself is notified.
\<close>

theorem processUpdate_cache_hit:
  assumes "readFile env f = Inr content"
    and "map_of (moduleCache srv) f = Some cached"
    and "cache_hash cached = sha256 env content"
  shows "moduleGraph (processUpdate env f srv) = moduleGraph srv \<and>
         moduleCache (processUpdate env f srv) = moduleCache srv \<and>
         sent (processUpdate env f srv) =
           sent srv @
           concat (map (\<lambda>m. map (\<lambda>c. (c, UpdateMessage
                                          \<lparr>update_type = Update_type, update_file = m,
                                           clients = (case map_of (clientModules srv) m of
                                                        Some s \<Rightarrow> s | None \<Rightarrow> []),
                                           timestamp = now env\<rparr>))
                             (filter (\<lambda>c. readyState env c = OPEN)
                                (case map_of (clientModules srv) m of Some s \<Rightarrow> s | None \<Rightarrow> [])))
                     (getUpdateChain (moduleGraph srv) f)) \<and>
         (\<forall>s c. map_of (clientModules srv) f = Some s \<and> c \<in> set s \<and> readyState env c = OPEN \<longrightarrow>
            (c, UpdateMessage \<lparr>update_type = Update_type, update_file = f, clients = s,
                               timestamp = now env\<rparr>) \<in> set (sent (processUpdate env f srv)))"
proof -
  let ?loaded = "\<lambda>m. case map_of (clientModules srv) m of Some s \<Rightarrow> s | None \<Rightarrow> []"
  let ?msg = "\<lambda>m c. (c, UpdateMessage \<lparr>update_type = Update_type, update_file = m,
      clients = ?loaded m, timestamp = now env\<rparr>)"
  let ?chain = "getUpdateChain (moduleGraph srv) f"
  have t: "transformModule env srv f = Inr (cache_code cached, srv)"
    using assms by (simp add: transformModule_def)
  have m: "update_messages env (calculateUpdates env srv ?chain) =
      concat (map (\<lambda>m. map (?msg m) (filter (\<lambda>c. readyState env c = OPEN) (?loaded m))) ?chain)"
    by (simp add: update_messages_def calculateUpdates_def comp_def)
  have s: "sent (processUpdate env f srv) =
      sent srv @ concat (map (\<lambda>m. map (?msg m) (filter (\<lambda>c. readyState env c = OPEN) (?loaded m)))
                           ?chain)"
    using t m by (simp add: processUpdate_def Let_def notifyClients_sent)
  have "f \<in> set ?chain"
    using getUpdateChain_head[of "moduleGraph srv" f] by auto
  then have "?msg f c \<in> set (sent (processUpdate env f srv))"
    if "c \<in> set (?loaded f)" "readyState env c = OPEN" for c
    unfolding s using that by auto
  then have each: "\<forall>s c. map_of (clientModules srv) f = Some s \<and> c \<in> set s \<and>
      readyState env c = OPEN \<longrightarrow>
        (c, UpdateMessage \<lparr>update_type = Update_type, update_file = f, clients = s,
                           timestamp = now env\<rparr>) \<in> set (sent (processUpdate env f srv))"
    by auto
  have frame: "moduleGraph (processUpdate env f srv) = moduleGraph srv \<and>
         moduleCache (processUpdate env f srv) = moduleCache srv"
    using t by (simp add: processUpdate_def Let_def notifyClients_frame)
  from frame s each show ?thesis by blast
qed

theorem processUpdate_cache_hit_witness:
  "readFile example_env ''f'' = Inr ''export const x = 1'' \<and>
   map_of (moduleCache cached_server) ''f'' =
     Some \<lparr>cache_code = ''export const x = 1'', cache_hash = ''hexport const x = 1''\<rparr> \<and>
   map_of (clientModules cached_server) ''f'' = Some [1] \<and> readyState example_env 1 = OPEN \<and>
   moduleGraph (processUpdate example_env ''f'' cached_server) = moduleGraph cached_server \<and>
   moduleCache (processUpdate example_env ''f'' cached_server) = moduleCache cached_server \<and>
   (1, UpdateMessage \<lparr>update_type = Update_type, update_file = ''f'', clients = [1],
                       timestamp = now example_env\<rparr>)
     \<in> set (sent (processUpdate example_env ''f'' cached_server))"
proof -
  have r: "readFile example_env ''f'' = Inr ''export const x = 1''"
    by (simp add: example_env_def)
  have c: "map_of (moduleCache cached_server) ''f'' =
     Some \<lparr>cache_code = ''export const x = 1'', cache_hash = ''hexport const x = 1''\<rparr>"
    by code_simp
  have h: "cache_hash \<lparr>cache_code = ''export const x = 1'', cache_hash = ''hexport const x = 1''\<rparr>
      = sha256 example_env ''export const x = 1''"
    by (simp add: example_env_def)
  have l: "map_of (clientModules cached_server) ''f'' = Some [1]" by code_simp
  have o: "readyState example_env 1 = OPEN" by (simp add: example_env_def)
  note hit = processUpdate_cache_hit[OF r c h]
  have g: "moduleGraph (processUpdate example_env ''f'' cached_server) = moduleGraph cached_server"
    by (rule hit[THEN conjunct1])
  have mc: "moduleCache (processUpdate example_env ''f'' cached_server) = moduleCache cached_server"
    by (rule hit[THEN conjunct2, THEN conjunct1])
  have "(1, UpdateMessage \<lparr>update_type = Update_type, update_file = ''f'', clients = [1],
                       timestamp = now example_env\<rparr>)
     \<in> set (sent (processUpdate example_env ''f'' cached_server))"
    using hit[THEN conjunct2, THEN conjunct2, THEN conjunct2, rule_format, of "[1]" 1] l o
    by simp
  then show ?thesis using r c l o g mc by (intro conjI)
qed

section \<open>A transform that fails\<close>

definition failing_env :: Env where
  "failing_env = \<lparr>readFile = (\<lambda>f. Inr ''export const = ''), sha256 = (\<lambda>c. ''h'' @ c),
     esbuildTransform = (\<lambda>c l. Inl \<lparr>message = ''Unexpected token'', stack = ''at transform''\<rparr>),
     extname = (\<lambda>f. ''.ts''), readyState = (\<lambda>ws. OPEN), now = 7\<rparr>"

definition two_client_server :: HMRServer where
  "two_client_server =
     server_events [Connection 1, Connection 2, Message 1 (Parsed ''module-loaded'' ''f'')]
       new_HMRServer"

text \<open>
  C8, as stated, fails. Clients 1 and 2 are connected, only client 1 has reported loading
  \<open>f\<close>; the transform of \<open>f\<close> fails, and client 2 is sent the error as well.
\<close>

theorem error_broadcast_counterexample:
  "map_of (clientModules two_client_server) ''f'' = Some [1] \<and>
   wss_clients two_client_server = [1, 2] \<and>
   sent (processUpdate failing_env ''f'' two_client_server) =
     [(1, ErrorMessage ''f'' ''Unexpected token'' ''at transform'' 7),
      (2, ErrorMessage ''f'' ''Unexpected token'' ''at transform'' 7)]"
  by code_simp

text \<open>
  C8, amended. When the transform of a file fails (the read or the transformer throws),
  the server sends the \<^verbatim>\<open>error\<close> message to every connected client whose socket is open,
  whether or not the client has reported loading the file, and to no other socket.
\<close>

theorem processUpdate_transform_error:
  assumes "transformModule env srv f = Inl err"
  shows "sent (processUpdate env f srv) =
           sent srv @ map (\<lambda>c. (c, ErrorMessage f (message err) (stack err) (now env)))
                        (filter (\<lambda>c. readyState env c = OPEN) (wss_clients srv))"
  using assms by (simp add: processUpdate_def notifyError_sent)

theorem processUpdate_transform_error_witness:
  "transformModule failing_env two_client_server ''f'' =
     Inl \<lparr>message = ''Unexpected token'', stack = ''at transform''\<rparr> \<and>
   sent (processUpdate failing_env ''f'' two_client_server) =
     sent two_client_server @
       map (\<lambda>c. (c, ErrorMessage ''f'' ''Unexpected token'' ''at transform'' (now failing_env)))
         (filter (\<lambda>c. readyState failing_env c = OPEN) (wss_clients two_client_server))"
proof -
  have t: "transformModule failing_env two_client_server ''f'' =
     Inl \<lparr>message = ''Unexpected token'', stack = ''at transform''\<rparr>"
    by (simp add: transformModule_def failing_env_def esbuild_and_cache_def two_client_server_def
        server_eval)
  from processUpdate_transform_error[OF t] t show ?thesis by simp
qed

section \<open>hot.accept\<close>

lemma hot_accept_no_argument:
  "isAccepted (module_hot (hot_accept None moduleState)) = True \<and>
   acceptCallbacks (hot_accept None moduleState) = acceptCallbacks moduleState"
  by (simp add: hot_accept_def)

lemma hot_accept_callback:
  "acceptCallbacks (hot_accept (Some cb) moduleState) = acceptCallbacks moduleState @ [cb] \<and>
   isAccepted (module_hot (hot_accept (Some cb) moduleState)) = isAccepted (module_hot moduleState)"
  by (simp add: hot_accept_def)

text \<open>A callback for the examples: it writes its name on the page, a list of names.\<close>

definition writes :: "string \<Rightarrow> string list Callback" where
  "writes name w = (w @ [name], None)"

definition throws :: "string \<Rightarrow> string list Callback" where
  "throws err w = (w, Some err)"

definition fresh_record :: "(string list, unit, unit) ModuleRecord" where
  "fresh_record = new_ModuleRecord"

text \<open>
  C4 at a record that \<^verbatim>\<open>createHotContext\<close> has just created: \<^verbatim>\<open>hot.accept(cb)\<close> appends
  the callback and leaves \<^verbatim>\<open>isAccepted\<close> false, where the claim says it is set.
\<close>

theorem hot_accept_callback_leaves_flag:
  "acceptCallbacks (hot_accept (Some (\<lambda>m. writes ''accepted'')) fresh_record) =
     [\<lambda>m. writes ''accepted''] \<and>
   isAccepted (module_hot (hot_accept (Some (\<lambda>m. writes ''accepted'')) fresh_record)) = False"
  by (simp add: hot_accept_def fresh_record_def new_ModuleRecord_def)

section \<open>Dispose callbacks\<close>

text \<open>The page after all callbacks of a list have run in order, each on what the one before left.\<close>

definition run_all :: "'w Callback list \<Rightarrow> 'w \<Rightarrow> 'w" where
  "run_all cbs w = fold (\<lambda>cb w'. fst (cb w')) cbs w"

lemma forEach_call_completes:
  "forEach_call cbs w0 = (w, None) \<Longrightarrow> w = run_all cbs w0"
  unfolding run_all_def
proof (induction cbs arbitrary: w0)
  case Nil
  then show ?case by simp
next
  case (Cons cb cbs)
  obtain w1 r where cb: "cb w0 = (w1, r)" by (cases "cb w0")
  with Cons.prems have "r = None" by (cases r) auto
  with Cons cb show ?case by simp
qed

lemma forEach_call_append:
  "forEach_call before w0 = (w', None) \<Longrightarrow> forEach_call (before @ cbs) w0 = forEach_call cbs w'"
proof (induction before arbitrary: w0)
  case Nil
  then show ?case by simp
next
  case (Cons cb before)
  obtain w1 r where cb: "cb w0 = (w1, r)" by (cases "cb w0")
  with Cons.prems have "r = None" by (cases r) auto
  with Cons cb show ?case by simp
qed

lemma forEach_call_cases:
  "(\<exists>w. forEach_call cbs w0 = (w, None)) \<or>
   (\<exists>before cb rest w' w1 err. cbs = before @ cb # rest \<and>
      forEach_call before w0 = (w', None) \<and> cb w' = (w1, Some err))"
proof (induction cbs arbitrary: w0)
  case Nil
  then show ?case by simp
next
  case (Cons c cs)
  obtain w1 r where c: "c w0 = (w1, r)" by (cases "c w0")
  show ?case
  proof (cases r)
    case (Some err)
    have "c # cs = [] @ c # cs \<and> forEach_call [] w0 = (w0, None) \<and> c w0 = (w1, Some err)"
      using c Some by simp
    then show ?thesis by blast
  next
    case None
    from Cons.IH[of w1] show ?thesis
    proof
      assume "\<exists>w. forEach_call cs w1 = (w, None)"
      then show ?thesis using c None by simp
    next
      assume "\<exists>before cb rest w' w2 err. cs = before @ cb # rest \<and>
        forEach_call before w1 = (w', None) \<and> cb w' = (w2, Some err)"
      then obtain before cb rest w' w2 err where
        "cs = before @ cb # rest" "forEach_call before w1 = (w', None)" "cb w' = (w2, Some err)"
        by blast
      then have "c # cs = (c # before) @ cb # rest \<and>
          forEach_call (c # before) w0 = (w', None) \<and> cb w' = (w2, Some err)"
        using c None by simp
      then show ?thesis by blast
    qed
  qed
qed

text \<open>
  A callback that throws only on an empty page: whether it throws depends on the run.
\<close>

definition picky :: "string list Callback" where
  "picky w = (if w = [] then (w, Some ''empty page'') else (w @ [''second''], None))"

definition disposing_state :: "(string list, unit, unit) HMRState" where
  "disposing_state =
     \<lparr>client_modules =
        [''f'' \<mapsto> hot_dispose (writes ''second'') (hot_dispose (throws ''boom'')
                     (hot_accept (Some (\<lambda>m. writes ''accepted'')) fresh_record))],
      pendingUpdates = [], isApplyingUpdates = True, page = [], client_console = []\<rparr>"

definition import_ok :: "string \<Rightarrow> nat \<Rightarrow> string list \<Rightarrow> string list \<times> (string + unit)" where
  "import_ok f t w = (w @ [''imported''], Inr ())"

text \<open>
  C7, as stated, fails. The module has two dispose callbacks; the first throws. The
  second never runs, the module is not imported again, its accept callback does not run,
  nothing is logged, and the exception leaves \<^verbatim>\<open>applyUpdate\<close>.
\<close>

theorem dispose_error_counterexample:
  "map_option (\<lambda>m. length (disposeCallbacks m)) (client_modules disposing_state ''f'') = Some 2 \<and>
   snd (applyUpdate import_ok 0 ''f'' disposing_state) = Some ''boom'' \<and>
   page (fst (applyUpdate import_ok 0 ''f'' disposing_state)) = [] \<and>
   client_console (fst (applyUpdate import_ok 0 ''f'' disposing_state)) = [] \<and>
   map_option module_exports (client_modules (fst (applyUpdate import_ok 0 ''f'' disposing_state)) ''f'')
     = Some None"
  by (simp add: applyUpdate_def update_in_try_def disposing_state_def hot_dispose_def hot_accept_def fresh_record_def
      new_ModuleRecord_def throws_def writes_def import_ok_def)

text \<open>
  C7, amended. When the client runtime applies an update for a loaded module, its dispose
  callbacks run in registration order up to the first one that throws in this run. If
  none throws, all of them have run, in that order, when the module is imported again
  and the rest of the update runs. If one throws, the callbacks registered before it
  have run, the error is neither caught nor logged by \<^verbatim>\<open>applyUpdate\<close>, which ends with
  that error, and the remaining dispose callbacks and the rest of the update do not run.
  Every run is one of the two.
\<close>

theorem applyUpdate_dispose_order:
  assumes "client_modules st f = Some moduleState"
  shows "(forEach_call (disposeCallbacks moduleState) (page st) = (w, None) \<longrightarrow>
            w = run_all (disposeCallbacks moduleState) (page st) \<and>
            applyUpdate import_module t f st =
              (update_in_try import_module t f moduleState (hot_data (module_hot moduleState))
                 (st\<lparr>page := w\<rparr>), None)) \<and>
         (disposeCallbacks moduleState = before @ cb # rest \<and>
          forEach_call before (page st) = (w', None) \<and> cb w' = (w1, Some err) \<longrightarrow>
            w' = run_all before (page st) \<and>
            applyUpdate import_module t f st = (st\<lparr>page := w1\<rparr>, Some err)) \<and>
         ((\<exists>w. forEach_call (disposeCallbacks moduleState) (page st) = (w, None)) \<or>
          (\<exists>before cb rest w' w1 err. disposeCallbacks moduleState = before @ cb # rest \<and>
             forEach_call before (page st) = (w', None) \<and> cb w' = (w1, Some err)))"
proof (intro conjI impI)
  assume ok: "forEach_call (disposeCallbacks moduleState) (page st) = (w, None)"
  then show "w = run_all (disposeCallbacks moduleState) (page st)"
    by (rule forEach_call_completes)
  from ok assms show "applyUpdate import_module t f st =
      (update_in_try import_module t f moduleState (hot_data (module_hot moduleState))
         (st\<lparr>page := w\<rparr>), None)"
    by (simp add: applyUpdate_def)
next
  assume a: "disposeCallbacks moduleState = before @ cb # rest \<and>
          forEach_call before (page st) = (w', None) \<and> cb w' = (w1, Some err)"
  then show "w' = run_all before (page st)" by (simp add: forEach_call_completes)
  from a have "forEach_call (disposeCallbacks moduleState) (page st) = (w1, Some err)"
    by (simp add: forEach_call_append)
  with assms show "applyUpdate import_module t f st = (st\<lparr>page := w1\<rparr>, Some err)"
    by (simp add: applyUpdate_def)
next
  show "(\<exists>w. forEach_call (disposeCallbacks moduleState) (page st) = (w, None)) \<or>
          (\<exists>before cb rest w' w1 err. disposeCallbacks moduleState = before @ cb # rest \<and>
             forEach_call before (page st) = (w', None) \<and> cb w' = (w1, Some err))"
    by (rule forEach_call_cases)
qed

definition quiet_state :: "(string list, unit, unit) HMRState" where
  "quiet_state =
     \<lparr>client_modules =
        [''f'' \<mapsto> hot_dispose picky (hot_dispose (writes ''first'') fresh_record)],
      pendingUpdates = [], isApplyingUpdates = True, page = [], client_console = []\<rparr>"

lemmas client_eval = applyUpdate_def update_in_try_def disposing_state_def quiet_state_def
  hot_dispose_def hot_accept_def fresh_record_def new_ModuleRecord_def throws_def writes_def
  import_ok_def run_all_def picky_def

theorem applyUpdate_dispose_order_witness:
  "forEach_call [writes ''first'', picky] (page quiet_state) = ([''first'', ''second''], None) \<and>
   page (fst (applyUpdate import_ok 0 ''f'' quiet_state)) = [''first'', ''second'', ''imported''] \<and>
   snd (applyUpdate import_ok 0 ''f'' quiet_state) = None \<and>
   throws ''boom'' [] = ([], Some ''boom'') \<and>
   applyUpdate import_ok 0 ''f'' disposing_state = (disposing_state\<lparr>page := []\<rparr>, Some ''boom'')"
proof -
  let ?m = "hot_dispose picky (hot_dispose (writes ''first'') fresh_record)"
  have q: "client_modules quiet_state ''f'' = Some ?m"
    by (simp add: quiet_state_def)
  have run: "forEach_call [writes ''first'', picky] (page quiet_state) = ([''first'', ''second''], None)"
    by (simp add: client_eval)
  have cbs: "disposeCallbacks ?m = [writes ''first'', picky]"
    by (simp add: client_eval)
  have a: "applyUpdate import_ok 0 ''f'' quiet_state =
      (update_in_try import_ok 0 ''f'' ?m (hot_data (module_hot ?m))
         (quiet_state\<lparr>page := [''first'', ''second'']\<rparr>), None)"
    using applyUpdate_dispose_order[OF q, where import_module = import_ok and t = 0
        and w = "[''first'', ''second'']"] run cbs
    by simp
  let ?d = "hot_dispose (writes ''second'') (hot_dispose (throws ''boom'')
              (hot_accept (Some (\<lambda>m. writes ''accepted'')) fresh_record))"
  have d: "client_modules disposing_state ''f'' = Some ?d"
    by (simp add: disposing_state_def)
  have split: "disposeCallbacks ?d = [] @ throws ''boom'' # [writes ''second'']"
    by (simp add: client_eval)
  have before: "forEach_call [] (page disposing_state) = ([], None)"
    by (simp add: client_eval)
  have boom: "throws ''boom'' [] = ([], Some ''boom'')"
    by (simp add: client_eval)
  have b: "applyUpdate import_ok 0 ''f'' disposing_state = (disposing_state\<lparr>page := []\<rparr>, Some ''boom'')"
    using applyUpdate_dispose_order[OF d, where before = "[]" and cb = "throws ''boom''"
        and rest = "[writes ''second'']" and w' = "[]" and ?w1.0 = "[]" and err = "''boom''"
        and import_module = import_ok and t = 0] split before boom
    by simp
  from a b run boom show ?thesis by (simp add: client_eval)
qed

section \<open>The batcher: deduplication and the count of handler calls\<close>

lemma head_index_single: "head_index opts [x] = 0"
  by (simp add: head_index_def)

lemma collectBatch_single: "collectBatch opts t [x] = ([x], [])"
  by (simp add: collectBatch_def eval_nat_numeral head_index_single remove_nth_def)

lemma collect_loop_keeps_batch:
  "batch \<noteq> [] \<Longrightarrow> fst (collect_loop opts t room batch q) \<noteq> []"
  by (induction opts t room batch q rule: collect_loop.induct) (auto simp: Let_def)

text \<open>
  \<^verbatim>\<open>collectBatch\<close> takes at least one job from a queue that is not empty: the worker never
  reaches its \<^verbatim>\<open>continue\<close>.
\<close>

lemma collectBatch_not_empty:
  "q \<noteq> [] \<Longrightarrow> fst (collectBatch opts t q) \<noteq> []"
  by (simp add: collectBatch_def eval_nat_numeral Let_def collect_loop_keeps_batch)

text \<open>
  A call of \<^verbatim>\<open>enqueue\<close> for a file that has an entry in \<^verbatim>\<open>pendingPromises\<close> adds no job and
  calls no handler. It returns a new promise, which a promise job will make follow the
  pending one.
\<close>

lemma enqueue_pending:
  assumes "map_of (pendingPromises s) f = Some pending"
  shows "fst (enqueue opts f priority s) = length (promises s) \<and>
         queue (snd (enqueue opts f priority s)) = queue s \<and>
         handlers (snd (enqueue opts f priority s)) = handlers s \<and>
         pendingPromises (snd (enqueue opts f priority s)) = pendingPromises s \<and>
         isProcessing (snd (enqueue opts f priority s)) = isProcessing s \<and>
         promiseJobs (snd (enqueue opts f priority s)) =
           promiseJobs s @ [ThenableJob pending (length (promises s))] \<and>
         history (snd (enqueue opts f priority s)) = history s @ [Enqueued f False]"
  using assms by (simp add: enqueue_def new_Promise_def)

lemmas batcher_eval = batcher_run_def batcher_step_def new_UpdateBatcher_def UpdateBatcher_options_def
  enqueue_def new_Promise_def processQueue_def call_worker_def worker_loop_def processBatch_def
  call_handler_def Promise_all_def subscribe_def settle_def all_element_def
  processBatch_resume_def worker_resume_def processQueue_resume_def collectBatch_single
  Let_def eval_nat_numeral

lemma batcher_steps_append:
  "batcher_steps n opts (evs @ evs') s =
     (case batcher_steps n opts evs s of
        None \<Rightarrow> None
      | Some s1 \<Rightarrow> batcher_steps n opts evs' s1)"
  by (induction evs arbitrary: s) (auto split: option.splits)

lemma batcher_run_append:
  "batcher_run n opts (evs @ evs') =
     (case batcher_run n opts evs of
        None \<Rightarrow> None
      | Some s1 \<Rightarrow> batcher_steps n opts evs' s1)"
  by (simp add: batcher_run_def batcher_steps_append)

text \<open>
  The first task runs \<^verbatim>\<open>await batcher.enqueue("f"); batcher.enqueue("f")\<close> up to its
  \<^verbatim>\<open>await\<close>. The first worker has called the handler for \<open>f\<close> (promise 4) and waits; the
  other three workers have returned; the caller waits for promise 0.
\<close>

definition first_task :: "BatcherEvent list" where
  "first_task = [Call [Await ''f'' Normal, Fire ''f'' Normal] 0]"

lemma first_task_run:
  "batcher_run 20 (UpdateBatcher_options 0 0 h) first_task =
     Some \<lparr>queue = [], isProcessing = True, pendingPromises = [(''f'', 1)],
            promises = [Pending, Pending, Pending, Pending, Pending, Pending,
                        Fulfilled, Fulfilled, Fulfilled, Pending],
            reactions =
              [(4, AllElement 5),
               (5, ProcessBatchResume [\<lparr>job_file = ''f'', job_priority = Normal,
                                          job_timestamp = 0, job_promise = 1\<rparr>] 3),
               (3, WorkerResume [\<lparr>job_file = ''f'', job_priority = Normal,
                                    job_timestamp = 0, job_promise = 1\<rparr>] 2),
               (2, AllElement 9), (9, ProcessQueueResume),
               (0, CallerResume [Fire ''f'' Normal]), (1, ResolveOuter 0)],
            remaining = [(5, 1), (9, 1)], promiseJobs = [], handlers = [(4, ''f'')],
            handles = [0], clock = 0,
            history = [Enqueued ''f'' True, Invoked ''f'', WorkerReturned, WorkerReturned,
                       WorkerReturned],
            batcher_console = [ProcessingBatch 1 [''f'']]\<rparr>"
  by (simp add: first_task_def batcher_eval)

text \<open>In the second task the handler call for \<open>f\<close> is fulfilled.\<close>

definition awaited_twice :: "BatcherEvent list" where
  "awaited_twice = first_task @ [HandlerSettles 4 None 5]"

lemma awaited_twice_run:
  "batcher_run 20 (UpdateBatcher_options 0 0 h) awaited_twice =
     Some \<lparr>queue = [\<lparr>job_file = ''f'', job_priority = Normal, job_timestamp = 5,
                      job_promise = 11\<rparr>],
            isProcessing = False, pendingPromises = [(''f'', 11)],
            promises = [Fulfilled, Fulfilled, Fulfilled, Fulfilled, Fulfilled, Fulfilled,
                        Fulfilled, Fulfilled, Fulfilled, Fulfilled, Pending, Pending],
            reactions = [(11, ResolveOuter 10)],
            remaining = [(5, 0), (9, 0)], promiseJobs = [], handlers = [],
            handles = [0, 10], clock = 5,
            history = [Enqueued ''f'' True, Invoked ''f'', WorkerReturned, WorkerReturned,
                       WorkerReturned, Completed ''f'', WorkerReturned, Enqueued ''f'' True,
                       ProcessingEnded],
            batcher_console = [ProcessingBatch 1 [''f'']]\<rparr>"
  unfolding awaited_twice_def batcher_run_append first_task_run
  by (simp add: batcher_eval)

text \<open>
  C6 fails on this run, whatever the order of the priority queue. Both calls of
  \<^verbatim>\<open>enqueue("f")\<close> add a job, and the second is made after the handler call for the first has
  completed: the claim counts two handler calls. The handler is called once. The caller goes
  on after the worker has left its loop and before \<^verbatim>\<open>processQueue\<close> clears \<^verbatim>\<open>isProcessing\<close>,
  so the second call starts no worker: in the end its job is in the queue, no worker and no
  promise job is left, and the promise it has returned (promise 10) stays pending. The two
  calls have returned two promises (0 and 10).
\<close>

theorem enqueue_after_await_stranded:
  "\<exists>s. batcher_run 20 (UpdateBatcher_options 0 0 h)
         [Call [Await ''f'' Normal, Fire ''f'' Normal] 0, HandlerSettles 4 None 5] = Some s \<and>
       history s = [Enqueued ''f'' True, Invoked ''f'', WorkerReturned, WorkerReturned,
                    WorkerReturned, Completed ''f'', WorkerReturned, Enqueued ''f'' True,
                    ProcessingEnded] \<and>
       count_list (history s) (Enqueued ''f'' True) = 2 \<and>
       count_list (history s) (Invoked ''f'') = 1 \<and>
       map job_file (queue s) = [''f''] \<and>
       isProcessing s = False \<and> promiseJobs s = [] \<and> handlers s = [] \<and>
       handles s = [0, 10] \<and> promises s ! 10 = Pending"
  using awaited_twice_run[of h] by (simp add: awaited_twice_def first_task_def)

text \<open>
  The job stays where it is: a later call of \<^verbatim>\<open>enqueue("f")\<close> in a task of its own finds the
  entry in \<^verbatim>\<open>pendingPromises\<close> and adds nothing.
\<close>

lemma stranded_job_stays:
  "\<exists>s. batcher_run 20 (UpdateBatcher_options 0 0 h) (awaited_twice @ [Call [Fire ''f'' Normal] 9])
         = Some s \<and>
       history s = [Enqueued ''f'' True, Invoked ''f'', WorkerReturned, WorkerReturned,
                    WorkerReturned, Completed ''f'', WorkerReturned, Enqueued ''f'' True,
                    ProcessingEnded, Enqueued ''f'' False] \<and>
       map job_file (queue s) = [''f''] \<and> isProcessing s = False \<and> promiseJobs s = [] \<and>
       handlers s = []"
  unfolding batcher_run_append awaited_twice_run
  by (simp add: batcher_eval)

text \<open>
  When the second call is made in a later task, after \<^verbatim>\<open>isProcessing\<close> has been cleared, it
  starts the workers again and the handler is called a second time.
\<close>

lemma enqueue_in_later_task:
  "\<exists>s. batcher_run 20 (UpdateBatcher_options 0 0 h)
           [Call [Fire ''f'' Normal] 0, HandlerSettles 4 None 5, Call [Fire ''f'' Normal] 9]
         = Some s \<and>
       history s = [Enqueued ''f'' True, Invoked ''f'', WorkerReturned, WorkerReturned,
                    WorkerReturned, Completed ''f'', WorkerReturned, ProcessingEnded,
                    Enqueued ''f'' True, Invoked ''f'', WorkerReturned, WorkerReturned,
                    WorkerReturned] \<and>
       queue s = [] \<and> isProcessing s = True \<and> handlers s = [(14, ''f'')]"
  by (simp add: batcher_eval)

end

